theory Spec2Isabelle
  imports Main "HOL-Library.AList"
begin

section \<open>Text\<close>

text \<open>
  Python's \<open>str\<close> is a sequence of code points. The corpus operations, the extractor and
  the classifier are modelled over \<^typ>\<open>string\<close>, whose characters stand for the code
  points below 256 (Latin-1 text); on these the character classes and case mappings below
  are the ones of Python 3. The character normalizer replaces code points beyond that
  range, so its text is a list of code points (\<^typ>\<open>nat\<close>).
\<close>

definition code :: "char \<Rightarrow> nat" where
  "code c = of_char c"

text \<open>\<open>str.isspace\<close> on one character: TAB, LF, VT, FF, CR, FS, GS, RS, US, SPACE, NEL, NBSP.\<close>

definition is_space :: "char \<Rightarrow> bool" where
  "is_space c = ((9 \<le> code c \<and> code c \<le> 13) \<or> (28 \<le> code c \<and> code c \<le> 32)
                 \<or> code c = 133 \<or> code c = 160)"

text \<open>
  \<open>str.upper\<close>: \<open>a\<close>..\<open>z\<close> and the accented letters 0xE0..0xFE (0xF7, the division sign,
  apart) move down by 32, sharp s (0xDF) becomes \<open>SS\<close>. Python sends 0xB5 and 0xFF to
  code points beyond Latin-1; the model leaves them in place, which no ASCII keyword
  can tell apart.
\<close>

definition upper_char :: "char \<Rightarrow> string" where
  "upper_char c =
     (if (97 \<le> code c \<and> code c \<le> 122) \<or> (224 \<le> code c \<and> code c \<le> 254 \<and> code c \<noteq> 247)
      then [char_of (code c - 32)]
      else if code c = 223 then ''SS''
      else [c])"

definition upper :: "string \<Rightarrow> string" where
  "upper s = concat (map upper_char s)"

text \<open>\<open>needle in haystack\<close> for strings.\<close>

fun is_prefix :: "'a list \<Rightarrow> 'a list \<Rightarrow> bool" where
  "is_prefix [] ys = True"
| "is_prefix (x # xs) [] = False"
| "is_prefix (x # xs) (y # ys) = (x = y \<and> is_prefix xs ys)"

fun contains :: "'a list \<Rightarrow> 'a list \<Rightarrow> bool" where
  "contains needle [] = (needle = [])"
| "contains needle (y # ys) = (is_prefix needle (y # ys) \<or> contains needle ys)"


section \<open>Character normalizer (fix\_csv\_encoding.py)\<close>

type_synonym utext = "nat list"

definition ascii :: "string \<Rightarrow> utext" where
  "ascii s = map of_char s"

text \<open>\<open>CSVEncodingFixer.character_replacements\<close>, in insertion order.\<close>

definition character_replacements :: "(nat \<times> utext) list" where
  "character_replacements =
    [(0x00AE, ascii ''(R)''), (0x2122, ascii ''(TM)''), (0x00A9, ascii ''(C)''),
     (0x2018, [39]), (0x2019, [39]), (0x201C, [34]), (0x201D, [34]),
     (0x2033, [34]), (0x2032, [39]),
     (0x2013, ascii ''-''), (0x2014, ascii ''-''), (0x2212, ascii ''-''),
     (0x00A0, ascii '' ''), (0x2009, ascii '' ''), (0x2003, ascii '' ''), (0x2002, ascii '' ''),
     (0x2022, ascii ''*''), (0x2026, ascii ''...''), (0x2010, ascii ''-''), (0x2011, ascii ''-''),
     (0x20AC, ascii ''EUR''), (0x00A3, ascii ''GBP''), (0x00A5, ascii ''JPY'')]"

text \<open>\<open>str.replace\<close> and \<open>str.count\<close> for a needle of one character.\<close>

fun replace_char :: "nat \<Rightarrow> utext \<Rightarrow> utext \<Rightarrow> utext" where
  "replace_char c r [] = []"
| "replace_char c r (x # xs) = (if x = c then r @ replace_char c r xs else x # replace_char c r xs)"

fun count_char :: "nat \<Rightarrow> utext \<Rightarrow> nat" where
  "count_char c [] = 0"
| "count_char c (x # xs) = (if x = c then Suc (count_char c xs) else count_char c xs)"

text \<open>
  One entry of the change list. The source formats it as
  \<open>'<char>' (U+<code point>) -> '<replacement>' (<count> occurrences)\<close>; the model keeps
  the three values the message is built from.
\<close>

record change =
  problematic_char :: nat
  replacement :: utext
  occurrences :: nat

text \<open>The body of the loop of \<open>fix_text\<close> for one table row.\<close>

definition fix_step :: "nat \<times> utext \<Rightarrow> utext \<times> change list \<Rightarrow> utext \<times> change list" where
  "fix_step row st =
     (case row of (c, r) \<Rightarrow>
      case st of (fixed_text, changes) \<Rightarrow>
        if c \<in> set fixed_text
        then (replace_char c r fixed_text,
              changes @ [\<lparr>problematic_char = c, replacement = r,
                          occurrences = count_char c fixed_text\<rparr>])
        else (fixed_text, changes))"

definition fix_text_with :: "(nat \<times> utext) list \<Rightarrow> utext \<Rightarrow> utext \<times> change list" where
  "fix_text_with table text = (if text = [] then (text, []) else fold fix_step table (text, []))"

definition fix_text :: "utext \<Rightarrow> utext \<times> change list" where
  "fix_text text = fix_text_with character_replacements text"


section \<open>Content classifier (process\_web\_documentation.py)\<close>

definition detect_content_type :: "string \<Rightarrow> string" where
  "detect_content_type content =
     (let content_upper = upper content in
      if contains ''OVERVIEW'' content_upper then ''overview''
      else if contains ''CONFIGURATION'' content_upper then ''configuration''
      else if contains ''INSTALLATION'' content_upper then ''installation''
      else if contains ''CONNECTOR'' content_upper then ''connector''
      else if contains ''INTEGRATION'' content_upper then ''integration''
      else if contains ''MONITOR'' content_upper then ''monitoring''
      else if contains ''DASHBOARD'' content_upper then ''dashboard''
      else if contains ''TROUBLESHOOT'' content_upper then ''troubleshooting''
      else if contains ''SYSTEM ARCHITECTURE'' content_upper then ''architecture''
      else if contains ''OOTB'' content_upper \<or> contains ''OUT OF THE BOX'' content_upper
        then ''ootb-assets''
      else if contains ''COST OPTIMIZATION'' content_upper then ''cost-optimization''
      else ''documentation'')"

text \<open>
  A marker occurs in a text case-insensitively when some stretch of the text spells it,
  each letter in either case.
\<close>

definition same_letter :: "char \<Rightarrow> char \<Rightarrow> bool" where
  "same_letter m c = (c = m \<or> (65 \<le> code m \<and> code m \<le> 90 \<and> code c = code m + 32))"

definition occurs_ignoring_case :: "string \<Rightarrow> string \<Rightarrow> bool" where
  "occurs_ignoring_case marker text =
     (\<exists>before mid after. text = before @ mid @ after \<and> list_all2 same_letter marker mid)"


section \<open>Content extractor (process\_knowledge\_base.py)\<close>

text \<open>
  \<open>extract_structured_content\<close> runs four \<open>re.search\<close> calls. The patterns are written
  as lists of the atoms they are made of, and matched as the backtracking matcher of
  \<open>re\<close> does: a greedy repetition tries the longest run first, a lazy one the shortest,
  and \<open>re.search\<close> tries the start positions from left to right.
\<close>

text \<open>\<open>str.lower\<close>: \<open>A\<close>..\<open>Z\<close> and the accented capitals 0xC0..0xDE (0xD7 apart) move up by 32.\<close>

definition lower_char :: "char \<Rightarrow> char" where
  "lower_char c =
     (if (65 \<le> code c \<and> code c \<le> 90) \<or> (192 \<le> code c \<and> code c \<le> 222 \<and> code c \<noteq> 215)
      then char_of (code c + 32) else c)"

definition lower :: "string \<Rightarrow> string" where
  "lower s = map lower_char s"

definition strip :: "string \<Rightarrow> string" where
  "strip s = rev (dropWhile is_space (rev (dropWhile is_space s)))"

datatype char_class = Whitespace | NotNewline | AnyChar

fun in_class :: "char_class \<Rightarrow> char \<Rightarrow> bool" where
  "in_class Whitespace c = is_space c"
| "in_class NotNewline c = (code c \<noteq> 10 \<and> code c \<noteq> 13)"
| "in_class AnyChar c = True"

datatype atom =
    Lit string              \<comment> \<open>literal text, under \<open>re.IGNORECASE\<close>\<close>
  | Star char_class         \<comment> \<open>\<open>\s*\<close>: greedy, not captured\<close>
  | GroupPlus char_class    \<comment> \<open>\<open>([^\n\r]+)\<close>: group 1, greedy, at least one character\<close>
  | GroupLazy char_class    \<comment> \<open>\<open>([^\n\r]*?)\<close> and \<open>(.*?)\<close> under \<open>re.DOTALL\<close>: group 1, lazy\<close>
  | Ahead string            \<comment> \<open>\<open>(?=Label:|$)\<close>: lookahead for the label or the end\<close>
  | End                     \<comment> \<open>\<open>$\<close>\<close>

fun ci_prefix :: "string \<Rightarrow> string \<Rightarrow> bool" where
  "ci_prefix [] s = True"
| "ci_prefix (p # ps) [] = False"
| "ci_prefix (p # ps) (c # cs) = (lower_char p = lower_char c \<and> ci_prefix ps cs)"

text \<open>\<open>$\<close> without \<open>re.MULTILINE\<close>: the end of the text, or just before a final newline.\<close>

definition at_end :: "string \<Rightarrow> bool" where
  "at_end s = (s = [] \<or> s = [CHR 0x0A])"

text \<open>
  The ways a repetition of a character class can split the text into the part it takes
  and the rest, shortest first.
\<close>

fun splits :: "char_class \<Rightarrow> string \<Rightarrow> (string \<times> string) list" where
  "splits cl [] = [([], [])]"
| "splits cl (c # cs) =
     ([], c # cs) # (if in_class cl c then map (\<lambda>(taken, rest). (c # taken, rest)) (splits cl cs) else [])"

fun first_success :: "('a \<Rightarrow> 'b option) \<Rightarrow> 'a list \<Rightarrow> 'b option" where
  "first_success f [] = None"
| "first_success f (x # xs) = (case f x of Some r \<Rightarrow> Some r | None \<Rightarrow> first_success f xs)"

text \<open>
  Matching a pattern at the head of the text. The third argument is group 1 so far;
  the result is group 1 of the match, or \<open>None\<close> when the pattern does not match here.
\<close>

fun match_atoms :: "atom list \<Rightarrow> string \<Rightarrow> string \<Rightarrow> string option" where
  "match_atoms [] s group1 = Some group1"
| "match_atoms (Lit l # as) s group1 =
     (if ci_prefix l s then match_atoms as (drop (length l) s) group1 else None)"
| "match_atoms (Star cl # as) s group1 =
     first_success (\<lambda>(taken, rest). match_atoms as rest group1) (rev (splits cl s))"
| "match_atoms (GroupPlus cl # as) s group1 =
     first_success (\<lambda>(taken, rest). match_atoms as rest taken)
       (filter (\<lambda>(taken, rest). taken \<noteq> []) (rev (splits cl s)))"
| "match_atoms (GroupLazy cl # as) s group1 =
     first_success (\<lambda>(taken, rest). match_atoms as rest taken) (splits cl s)"
| "match_atoms (Ahead l # as) s group1 =
     (if ci_prefix l s \<or> at_end s then match_atoms as s group1 else None)"
| "match_atoms (End # as) s group1 =
     (if at_end s then match_atoms as s group1 else None)"

fun search :: "atom list \<Rightarrow> string \<Rightarrow> string option" where
  "search pattern [] = match_atoms pattern [] []"
| "search pattern (c # cs) =
     (case match_atoms pattern (c # cs) [] of Some g \<Rightarrow> Some g | None \<Rightarrow> search pattern cs)"

text \<open>
  \<open>Title:\s*([^\n\r]+)\<close>, \<open>Description:\s*([^\n\r]*?)(?=Problem:|$)\<close>,
  \<open>Problem:\s*(.*?)(?=Resolution:|$)\<close> and \<open>Resolution:\s*(.*?)$\<close>.
\<close>

definition title_pattern :: "atom list" where
  "title_pattern = [Lit ''Title:'', Star Whitespace, GroupPlus NotNewline]"

definition description_pattern :: "atom list" where
  "description_pattern = [Lit ''Description:'', Star Whitespace, GroupLazy NotNewline, Ahead ''Problem:'']"

definition problem_pattern :: "atom list" where
  "problem_pattern = [Lit ''Problem:'', Star Whitespace, GroupLazy AnyChar, Ahead ''Resolution:'']"

definition resolution_pattern :: "atom list" where
  "resolution_pattern = [Lit ''Resolution:'', Star Whitespace, GroupLazy AnyChar, End]"

record structured_content =
  title :: string
  description :: string
  problem :: string
  resolution :: string
  category :: string
  tags :: "string list"
  priority :: string

definition section_text :: "atom list \<Rightarrow> string \<Rightarrow> string" where
  "section_text pattern content = (case search pattern content of Some g \<Rightarrow> strip g | None \<Rightarrow> [])"

definition extract_structured_content :: "string \<Rightarrow> structured_content" where
  "extract_structured_content content =
     \<lparr>title = section_text title_pattern content,
      description = section_text description_pattern content,
      problem = section_text problem_pattern content,
      resolution = section_text resolution_pattern content,
      category = ''datadog-mulesoft'',
      tags = [],
      priority = ''medium''\<rparr>"


section \<open>Corpus store (scripts/manage\_knowledge\_base.py)\<close>

text \<open>
  A CSV file is modelled by the rows the \<open>csv\<close> module reads from it or writes to it,
  each row a list of cells; quoting and line ends are the module's concern and are left
  out. A blank line is the row \<open>[]\<close>. The knowledge-base directory is the list of its
  files, in the order the directory listing returns them, with distinct names.
\<close>

type_synonym csv_rows = "string list list"
type_synonym directory = "(string \<times> csv_rows) list"

text \<open>
  An entry is the dictionary \<open>csv.DictReader\<close> builds for a row: under each column name
  the cell, or \<open>None\<close> where the row was shorter than the header; and, where the row was
  longer than the header, the surplus cells as a list under the key \<open>None\<close> (\<open>rest\<close>).
\<close>

record entry =
  columns :: "(string \<times> string option) list"
  rest :: "string list option"

datatype error = AttributeError | ValueError | KeyError

definition fieldnames :: "string list" where
  "fieldnames = [''question'', ''answer'', ''category'', ''tags'', ''priority'']"

definition valid_priorities :: "string set" where
  "valid_priorities = {''high'', ''medium'', ''low''}"

text \<open>\<open>entry.get(key, '')\<close>: the result \<open>None\<close> is Python's \<open>None\<close>.\<close>

definition get_field :: "entry \<Rightarrow> string \<Rightarrow> string option" where
  "get_field e key = (case map_of (columns e) key of None \<Rightarrow> Some [] | Some v \<Rightarrow> v)"

text \<open>\<open>entry[key] = value\<close>.\<close>

definition set_field :: "entry \<Rightarrow> string \<Rightarrow> string \<Rightarrow> entry" where
  "set_field e key v = e\<lparr>columns := AList.update key (Some v) (columns e)\<rparr>"

text \<open>
  \<open>csv.DictReader.__next__\<close>: \<open>dict(zip(fieldnames, row))\<close>, then the surplus cells under
  \<open>restkey\<close> or \<open>restval\<close> under the columns the row does not reach.
\<close>

definition dict_reader_row :: "string list \<Rightarrow> string list \<Rightarrow> entry" where
  "dict_reader_row names row =
     (let d = fold (\<lambda>(k, v). AList.update k (Some v)) (zip names row) [] in
      if length names < length row
        then \<lparr>columns = d, rest = Some (drop (length names) row)\<rparr>
      else if length names > length row
        then \<lparr>columns = fold (\<lambda>k. AList.update k None) (drop (length row) names) d, rest = None\<rparr>
      else \<lparr>columns = d, rest = None\<rparr>)"

text \<open>The first row is the header; \<open>DictReader\<close> skips blank rows.\<close>

definition dict_reader :: "csv_rows \<Rightarrow> entry list" where
  "dict_reader rows =
     (case rows of [] \<Rightarrow> []
      | names # body \<Rightarrow> map (dict_reader_row names) (filter (\<lambda>row. row \<noteq> []) body))"

text \<open>A file that cannot be opened is reported and read as no entries.\<close>

definition load_csv_file :: "directory \<Rightarrow> string \<Rightarrow> entry list" where
  "load_csv_file dir file_path =
     (case map_of dir file_path of None \<Rightarrow> [] | Some rows \<Rightarrow> dict_reader rows)"

text \<open>
  \<open>csv.DictWriter._dict_to_list\<close> with the default \<open>extrasaction='raise'\<close>: a key that is
  not a field name raises \<open>ValueError\<close>; a missing field is written as \<open>restval\<close>, the empty
  cell, and so is \<open>None\<close>.
\<close>

definition keys :: "entry \<Rightarrow> string option list" where
  "keys e = map Some (map fst (columns e)) @ (case rest e of None \<Rightarrow> [] | Some cells \<Rightarrow> [None])"

definition wrong_fields :: "entry \<Rightarrow> string option list" where
  "wrong_fields e = filter (\<lambda>k. k \<notin> Some ` set fieldnames) (keys e)"

definition row_cells :: "entry \<Rightarrow> string list" where
  "row_cells e = map (\<lambda>key. case get_field e key of None \<Rightarrow> [] | Some cell \<Rightarrow> cell) fieldnames"

definition dict_to_list :: "entry \<Rightarrow> error + string list" where
  "dict_to_list e = (if wrong_fields e \<noteq> [] then Inl ValueError else Inr (row_cells e))"


text \<open>
  \<open>DictWriter.writerows\<close>: the rows are converted and written one by one, so the rows
  before a failing entry have reached the file when the exception is raised.
\<close>

fun writerows :: "entry list \<Rightarrow> csv_rows \<times> bool" where
  "writerows [] = ([], True)"
| "writerows (e # es) =
     (case dict_to_list e of
        Inl err \<Rightarrow> ([], False)
      | Inr row \<Rightarrow> (case writerows es of (rows, ok) \<Rightarrow> (row # rows, ok)))"

definition write_file :: "directory \<Rightarrow> string \<Rightarrow> csv_rows \<Rightarrow> directory" where
  "write_file dir file_path rows = AList.update file_path rows dir"

text \<open>
  \<open>save_csv_file\<close>: opening for writing empties the file; header and rows are written
  only for a non-empty list. An exception is caught and reported as \<open>False\<close>, the file
  keeping what was written before it. The result is the flag and the directory after.
  The file is taken to be writable: a failure to open it is outside the model.
\<close>

definition save_csv_file :: "directory \<Rightarrow> string \<Rightarrow> entry list \<Rightarrow> bool \<times> directory" where
  "save_csv_file dir file_path entries =
     (if entries \<noteq> []
      then (case writerows entries of (rows, ok) \<Rightarrow> (ok, write_file dir file_path (fieldnames # rows)))
      else (True, write_file dir file_path []))"

text \<open>\<open>glob("*.csv")\<close> and \<open>get_all_entries\<close>: the files that load to at least one entry.\<close>

definition csv_name :: "string \<Rightarrow> bool" where
  "csv_name name = (drop (length name - 4) name = ''.csv'')"

definition get_all_entries :: "directory \<Rightarrow> (string \<times> entry list) list" where
  "get_all_entries dir =
     filter (\<lambda>(name, entries). entries \<noteq> [])
       (map (\<lambda>name. (name, load_csv_file dir name)) (filter csv_name (map fst dir)))"


section \<open>Integrity engine (scripts/manage\_knowledge\_base.py)\<close>

text \<open>\<open>entry.get(key, '').strip()\<close>, which raises \<open>AttributeError\<close> on \<open>None\<close>.\<close>

definition stripped :: "entry \<Rightarrow> string \<Rightarrow> error + string" where
  "stripped e key = (case get_field e key of None \<Rightarrow> Inl AttributeError | Some s \<Rightarrow> Inr (strip s))"

text \<open>\<open>entry.get('question', '').strip().lower()\<close>.\<close>

definition normalized_question :: "entry \<Rightarrow> error + string" where
  "normalized_question e =
     (case stripped e ''question'' of Inl err \<Rightarrow> Inl err | Inr q \<Rightarrow> Inr (lower q))"

subsection \<open>Duplicate detection and removal\<close>

text \<open>
  A location is the text \<open>f"{filename}:{idx}"\<close>, kept as the pair it is built from.
  \<open>seen_questions\<close> is a \<open>defaultdict(list)\<close>, in insertion order.
\<close>

type_synonym location = "string \<times> nat"

definition append_location :: "string \<Rightarrow> location \<Rightarrow> (string \<times> location list) list
    \<Rightarrow> (string \<times> location list) list" where
  "append_location question loc seen_questions =
     AList.update question
       ((case map_of seen_questions question of None \<Rightarrow> [] | Some locs \<Rightarrow> locs) @ [loc])
       seen_questions"

fun scan_entries :: "string \<Rightarrow> nat \<Rightarrow> entry list \<Rightarrow> (string \<times> location list) list
    \<Rightarrow> error + (string \<times> location list) list" where
  "scan_entries filename idx [] seen_questions = Inr seen_questions"
| "scan_entries filename idx (e # es) seen_questions =
     (case normalized_question e of
        Inl err \<Rightarrow> Inl err
      | Inr question \<Rightarrow>
          scan_entries filename (Suc idx) es
            (if question \<noteq> [] then append_location question (filename, idx) seen_questions
             else seen_questions))"

fun scan_files :: "(string \<times> entry list) list \<Rightarrow> (string \<times> location list) list
    \<Rightarrow> error + (string \<times> location list) list" where
  "scan_files [] seen_questions = Inr seen_questions"
| "scan_files ((filename, entries) # files) seen_questions =
     (case scan_entries filename 1 entries seen_questions of
        Inl err \<Rightarrow> Inl err
      | Inr seen \<Rightarrow> scan_files files seen)"

definition find_duplicates :: "directory \<Rightarrow> error + (string \<times> location list) list" where
  "find_duplicates dir =
     (case scan_files (get_all_entries dir) [] of
        Inl err \<Rightarrow> Inl err
      | Inr seen_questions \<Rightarrow> Inr (filter (\<lambda>(q, locations). length locations > 1) seen_questions))"

text \<open>\<open>del entries[row_num]\<close>.\<close>

definition delete_at :: "nat \<Rightarrow> 'a list \<Rightarrow> 'a list" where
  "delete_at n xs = take n xs @ drop (Suc n) xs"

text \<open>
  The body of the inner loop of \<open>remove_duplicates\<close> for one location.
  \<open>location.split(':')\<close> gives the two parts the assignment unpacks exactly when the file
  name holds no colon; otherwise the unpacking raises \<open>ValueError\<close>. The state is
  \<open>all_entries\<close> and \<open>modified_files\<close>; the latter is a set, which Python visits in no
  fixed order and the model in the order of first insertion.
\<close>

definition remove_location :: "bool \<Rightarrow> location
    \<Rightarrow> (string \<times> entry list) list \<times> string list
    \<Rightarrow> error + (string \<times> entry list) list \<times> string list" where
  "remove_location dry_run loc st =
     (case loc of (filename, idx) \<Rightarrow>
      case st of (all_entries, modified_files) \<Rightarrow>
        if CHR '':'' \<in> set filename then Inl ValueError
        else (let row_num = int idx - 1 in
          case map_of all_entries filename of
            None \<Rightarrow> Inr st
          | Some entries \<Rightarrow>
              if 0 \<le> row_num \<and> row_num < int (length entries)
              then (if dry_run then Inr st
                    else Inr (AList.update filename (delete_at (nat row_num) entries) all_entries,
                              List.insert filename modified_files))
              else Inr st))"

fun remove_locations :: "bool \<Rightarrow> location list
    \<Rightarrow> (string \<times> entry list) list \<times> string list
    \<Rightarrow> error + (string \<times> entry list) list \<times> string list" where
  "remove_locations dry_run [] st = Inr st"
| "remove_locations dry_run (loc # locs) st =
     (case remove_location dry_run loc st of
        Inl err \<Rightarrow> Inl err
      | Inr st' \<Rightarrow> remove_locations dry_run locs st')"

text \<open>The outer loop: of each group, \<open>locations[1:]\<close> are removed.\<close>

fun remove_groups :: "bool \<Rightarrow> (string \<times> location list) list
    \<Rightarrow> (string \<times> entry list) list \<times> string list
    \<Rightarrow> error + (string \<times> entry list) list \<times> string list" where
  "remove_groups dry_run [] st = Inr st"
| "remove_groups dry_run ((question, locations) # groups) st =
     (case remove_locations dry_run (drop 1 locations) st of
        Inl err \<Rightarrow> Inl err
      | Inr st' \<Rightarrow> remove_groups dry_run groups st')"

fun save_modified :: "(string \<times> entry list) list \<Rightarrow> string list \<Rightarrow> directory
    \<Rightarrow> (error + bool) \<times> directory" where
  "save_modified all_entries [] dir = (Inr True, dir)"
| "save_modified all_entries (filename # filenames) dir =
     (case map_of all_entries filename of
        None \<Rightarrow> (Inl KeyError, dir)
      | Some entries \<Rightarrow>
          (case save_csv_file dir filename entries of
             (ok, dir') \<Rightarrow> if ok then save_modified all_entries filenames dir' else (Inr False, dir')))"

text \<open>
  \<open>remove_duplicates\<close>. The result is the returned flag, or the exception that escaped,
  and the directory after the call.
\<close>

definition remove_duplicates :: "bool \<Rightarrow> directory \<Rightarrow> (error + bool) \<times> directory" where
  "remove_duplicates dry_run dir =
     (case find_duplicates dir of
        Inl err \<Rightarrow> (Inl err, dir)
      | Inr duplicates \<Rightarrow>
          if duplicates = [] then (Inr True, dir)
          else (case remove_groups dry_run duplicates (get_all_entries dir, []) of
                  Inl err \<Rightarrow> (Inl err, dir)
                | Inr (all_entries, modified_files) \<Rightarrow>
                    if \<not> dry_run \<and> modified_files \<noteq> []
                    then save_modified all_entries modified_files dir
                    else (Inr True, dir)))"

subsection \<open>Validation and repair\<close>

text \<open>\<open>str.split\<close> on one separator character, and \<open>str.join\<close>.\<close>

fun split_on :: "char \<Rightarrow> string \<Rightarrow> string list" where
  "split_on sep [] = [[]]"
| "split_on sep (c # cs) =
     (if c = sep then [] # split_on sep cs
      else (case split_on sep cs of [] \<Rightarrow> [[c]] | part # parts \<Rightarrow> (c # part) # parts))"

fun join :: "string \<Rightarrow> string list \<Rightarrow> string" where
  "join sep [] = []"
| "join sep [part] = part"
| "join sep (part # parts) = part @ sep @ join sep parts"

text \<open>
  The four checks of the loop body of \<open>validate_and_fix\<close>. Each returns the entry after
  it and whether it found something: in fix mode the find sets \<open>file_modified\<close> and the
  entry is rewritten, otherwise it sets \<open>has_issues\<close> and the entry is left alone.
\<close>

definition check_category :: "bool \<Rightarrow> entry \<Rightarrow> error + entry \<times> bool" where
  "check_category fix e =
     (case stripped e ''category'' of
        Inl err \<Rightarrow> Inl err
      | Inr c \<Rightarrow>
          if c = [] then Inr (if fix then set_field e ''category'' ''general'' else e, True)
          else Inr (e, False))"

definition check_priority_present :: "bool \<Rightarrow> entry \<Rightarrow> error + entry \<times> bool" where
  "check_priority_present fix e =
     (case stripped e ''priority'' of
        Inl err \<Rightarrow> Inl err
      | Inr p \<Rightarrow>
          if p = [] then Inr (if fix then set_field e ''priority'' ''medium'' else e, True)
          else Inr (e, False))"

definition check_priority_valid :: "bool \<Rightarrow> entry \<Rightarrow> error + entry \<times> bool" where
  "check_priority_valid fix e =
     (case stripped e ''priority'' of
        Inl err \<Rightarrow> Inl err
      | Inr p \<Rightarrow>
          (let priority = lower p in
           if priority \<noteq> [] \<and> priority \<notin> valid_priorities
           then Inr (if fix then set_field e ''priority'' ''medium'' else e, True)
           else Inr (e, False)))"

definition clean_tags :: "string \<Rightarrow> string" where
  "clean_tags tags_str =
     join '','' (filter (\<lambda>tag. tag \<noteq> []) (map strip (split_on (CHR '','') tags_str)))"

definition check_tags :: "bool \<Rightarrow> entry \<Rightarrow> error + entry \<times> bool" where
  "check_tags fix e =
     (case stripped e ''tags'' of
        Inl err \<Rightarrow> Inl err
      | Inr tags_str \<Rightarrow>
          if tags_str \<noteq> [] \<and> clean_tags tags_str \<noteq> tags_str
          then Inr (if fix then set_field e ''tags'' (clean_tags tags_str) else e, True)
          else Inr (e, False))"

definition and_then :: "error + entry \<times> bool \<Rightarrow> (entry \<Rightarrow> error + entry \<times> bool)
    \<Rightarrow> error + entry \<times> bool" where
  "and_then r check =
     (case r of
        Inl err \<Rightarrow> Inl err
      | Inr (e, found) \<Rightarrow>
          (case check e of Inl err \<Rightarrow> Inl err | Inr (e', found') \<Rightarrow> Inr (e', found \<or> found')))"

definition check_entry :: "bool \<Rightarrow> entry \<Rightarrow> error + entry \<times> bool" where
  "check_entry fix e =
     and_then (and_then (and_then (check_category fix e) (check_priority_present fix))
       (check_priority_valid fix)) (check_tags fix)"

fun check_entries :: "bool \<Rightarrow> entry list \<Rightarrow> error + entry list \<times> bool" where
  "check_entries fix [] = Inr ([], False)"
| "check_entries fix (e # es) =
     (case check_entry fix e of
        Inl err \<Rightarrow> Inl err
      | Inr (e', found) \<Rightarrow>
          (case check_entries fix es of
             Inl err \<Rightarrow> Inl err
           | Inr (es', found') \<Rightarrow> Inr (e' # es', found \<or> found')))"

text \<open>
  The loop of \<open>validate_and_fix\<close> over the files loaded at its start, with \<open>has_issues\<close>
  and the directory as state; a failed save returns \<open>False\<close> at once.
\<close>

fun validate_files :: "bool \<Rightarrow> (string \<times> entry list) list \<Rightarrow> bool \<Rightarrow> directory
    \<Rightarrow> (error + bool) \<times> directory" where
  "validate_files fix [] has_issues dir = (Inr (\<not> (\<not> fix \<and> has_issues)), dir)"
| "validate_files fix ((filename, entries) # files) has_issues dir =
     (case check_entries fix entries of
        Inl err \<Rightarrow> (Inl err, dir)
      | Inr (entries', found) \<Rightarrow>
          if fix \<and> found
          then (case save_csv_file dir filename entries' of
                  (ok, dir') \<Rightarrow>
                    if ok then validate_files fix files has_issues dir' else (Inr False, dir'))
          else validate_files fix files (has_issues \<or> (\<not> fix \<and> found)) dir)"

definition validate_and_fix :: "bool \<Rightarrow> directory \<Rightarrow> (error + bool) \<times> directory" where
  "validate_and_fix fix dir = validate_files fix (get_all_entries dir) False dir"

subsection \<open>Merge\<close>

text \<open>The loop over the entries of one source, with \<open>all_entries\<close> and \<open>seen_questions\<close>.\<close>

fun merge_entries :: "bool \<Rightarrow> entry list \<Rightarrow> entry list \<times> string set
    \<Rightarrow> error + entry list \<times> string set" where
  "merge_entries remove_dups [] st = Inr st"
| "merge_entries remove_dups (e # es) (all_entries, seen_questions) =
     (case normalized_question e of
        Inl err \<Rightarrow> Inl err
      | Inr question \<Rightarrow>
          if remove_dups \<and> question \<in> seen_questions
          then merge_entries remove_dups es (all_entries, seen_questions)
          else merge_entries remove_dups es
                 (all_entries @ [e],
                  if question \<noteq> [] then insert question seen_questions else seen_questions))"

text \<open>
  The loop over the source files: \<open>Inl\<close> is the early end, by \<open>return False\<close> for a
  missing source or by an exception.
\<close>

fun merge_sources :: "bool \<Rightarrow> directory \<Rightarrow> string list \<Rightarrow> entry list \<times> string set
    \<Rightarrow> (error + bool) + entry list \<times> string set" where
  "merge_sources remove_dups dir [] st = Inr st"
| "merge_sources remove_dups dir (source_file # source_files) st =
     (if map_of dir source_file = None then Inl (Inr False)
      else (case merge_entries remove_dups (load_csv_file dir source_file) st of
              Inl err \<Rightarrow> Inl (Inl err)
            | Inr st' \<Rightarrow> merge_sources remove_dups dir source_files st'))"



section \<open>Vocabulary of the properties\<close>

text \<open>Two entries agree outside a set of field names.\<close>

definition same_outside :: "string set \<Rightarrow> entry \<Rightarrow> entry \<Rightarrow> bool" where
  "same_outside ks e e' =
     (rest e' = rest e \<and> (\<forall>key. key \<notin> ks \<longrightarrow> map_of (columns e') key = map_of (columns e) key))"


text \<open>
  A location is that of an entry with the normalized question \<open>q\<close>: the row number is
  in range for the file and the entry there has this question.
\<close>

definition located :: "directory \<Rightarrow> string \<Rightarrow> location \<Rightarrow> bool" where
  "located dir q loc =
     (case loc of (filename, idx) \<Rightarrow>
        1 \<le> idx \<and> idx \<le> length (load_csv_file dir filename)
        \<and> normalized_question (load_csv_file dir filename ! (idx - 1)) = Inr q)"

text \<open>The question of an entry is empty after trimming.\<close>

definition empty_question :: "entry \<Rightarrow> bool" where
  "empty_question e = (normalized_question e = Inr [])"

text \<open>The invariant of \<open>seen_questions\<close> during duplicate detection.\<close>

definition seen_ok :: "directory \<Rightarrow> (string \<times> location list) list \<Rightarrow> bool" where
  "seen_ok dir seen = (\<forall>(q, locs) \<in> set seen. q \<noteq> [] \<and> (\<forall>loc \<in> set locs. located dir q loc))"






text \<open>A text without white space at either end.\<close>

definition trimmed :: "string \<Rightarrow> bool" where
  "trimmed s = (s = [] \<or> (\<not> is_space (hd s) \<and> \<not> is_space (last s)))"

text \<open>
  An entry on which repair finds nothing to do: a category that is not blank, a valid
  priority, and tags that are blank or already the join of their trimmed members.
\<close>

definition repaired :: "entry \<Rightarrow> bool" where
  "repaired e =
     (\<exists>c p t. get_field e ''category'' = Some c \<and> strip c \<noteq> []
        \<and> get_field e ''priority'' = Some p \<and> lower (strip p) \<in> valid_priorities
        \<and> get_field e ''tags'' = Some t \<and> (strip t = [] \<or> clean_tags (strip t) = strip t))"

text \<open>An entry as it is read back after a save.\<close>

definition reload :: "entry \<Rightarrow> entry" where
  "reload e = dict_reader_row fieldnames (row_cells e)"


text \<open>
  The question and the answer of an entry as the texts a save writes: a field that is
  missing or \<open>None\<close> reads as the empty text.
\<close>

definition question_answer :: "entry \<Rightarrow> string \<times> string" where
  "question_answer e =
     ((case get_field e ''question'' of None \<Rightarrow> [] | Some cell \<Rightarrow> cell),
      (case get_field e ''answer'' of None \<Rightarrow> [] | Some cell \<Rightarrow> cell))"

text \<open>
  Every file of the second directory holds, entry by entry, the questions and answers
  of the same file of the first, or of its first entries only.
\<close>

definition keeps_questions :: "directory \<Rightarrow> directory \<Rightarrow> bool" where
  "keeps_questions d d' =
     (\<forall>n. \<exists>k. map question_answer (load_csv_file d' n)
              = take k (map question_answer (load_csv_file d n)))"

definition same_questions :: "directory \<Rightarrow> directory \<Rightarrow> bool" where
  "same_questions d d' =
     (\<forall>n. map question_answer (load_csv_file d' n) = map question_answer (load_csv_file d n))"


section \<open>Properties of the character normalizer\<close>

lemma set_replace_char: "set (replace_char c r t) \<subseteq> (set t - {c}) \<union> set r"
  by (induction t) auto

lemma fold_fix_step_keys:
  assumes "\<forall>(c, r) \<in> set table. set r \<inter> K = {}"
  shows "set (fst (fold fix_step table (t, chs))) \<inter> K \<subseteq> (set t \<inter> K) - fst ` set table"
  using assms
proof (induction table arbitrary: t chs)
  case Nil
  then show ?case by simp
next
  case (Cons row table)
  obtain c r where row: "row = (c, r)" by (cases row)
  obtain t1 chs1 where step: "fix_step row (t, chs) = (t1, chs1)" by (cases "fix_step row (t, chs)")
  have rK: "set r \<inter> K = {}" using Cons.prems row by auto
  have t1: "set t1 \<inter> K \<subseteq> (set t \<inter> K) - {c}"
    using step rK set_replace_char [of c r t]
    by (auto simp: fix_step_def row split: if_splits)
  have "set (fst (fold fix_step table (t1, chs1))) \<inter> K \<subseteq> (set t1 \<inter> K) - fst ` set table"
    using Cons.IH [of t1 chs1] Cons.prems by auto
  moreover have "fold fix_step (row # table) (t, chs) = fold fix_step table (t1, chs1)"
    by (simp add: step)
  ultimately show ?case using t1 row by auto
qed

lemma fold_fix_step_clean:
  "set t \<inter> fst ` set table = {} \<Longrightarrow> fold fix_step table (t, chs) = (t, chs)"
  by (induction table) (auto simp: fix_step_def)

lemma fix_text_with_idem:
  assumes "\<forall>(c, r) \<in> set table. set r \<inter> fst ` set table = {}"
  shows "fix_text_with table (fst (fix_text_with table t)) = (fst (fix_text_with table t), [])"
proof (cases "t = []")
  case True
  then show ?thesis by (simp add: fix_text_with_def)
next
  case False
  let ?t' = "fst (fold fix_step table (t, []))"
  have "set ?t' \<inter> fst ` set table = {}"
    using fold_fix_step_keys [OF assms, of t "[]"] by auto
  then have "fold fix_step table (?t', []) = (?t', [])"
    by (rule fold_fix_step_clean)
  then show ?thesis using False by (simp add: fix_text_with_def)
qed

lemma replacements_plain:
  "\<forall>(c, r) \<in> set character_replacements. set r \<inter> fst ` set character_replacements = {}"
  by (simp add: character_replacements_def ascii_def)

text \<open>
  C7. The character normalizer is idempotent: whenever normalizing a text \<open>t\<close> yields
  \<open>t'\<close>, normalizing \<open>t'\<close> returns \<open>t'\<close> unchanged with an empty change list; and the
  empty text is returned as it is with an empty change list.
\<close>

theorem fix_text_idempotent:
  "(fix_text t = (t', changes) \<longrightarrow> fix_text t' = (t', [])) \<and> fix_text [] = ([], [])"
proof
  show "fix_text t = (t', changes) \<longrightarrow> fix_text t' = (t', [])"
  proof
    assume "fix_text t = (t', changes)"
    then have "fst (fix_text_with character_replacements t) = t'"
      by (simp add: fix_text_def)
    then show "fix_text t' = (t', [])"
      using fix_text_with_idem [OF replacements_plain, of t] by (simp add: fix_text_def)
  qed
  show "fix_text [] = ([], [])"
    by (simp add: fix_text_def fix_text_with_def)
qed

theorem fix_text_idempotent_witness:
  "fix_text [99, 0x2122, 0x2026] = ([99, 40, 84, 77, 41, 46, 46, 46],
      [\<lparr>problematic_char = 0x2122, replacement = [40, 84, 77, 41], occurrences = 1\<rparr>,
       \<lparr>problematic_char = 0x2026, replacement = [46, 46, 46], occurrences = 1\<rparr>])
   \<and> fix_text [99, 40, 84, 77, 41, 46, 46, 46] = ([99, 40, 84, 77, 41, 46, 46, 46], [])"
proof -
  have run: "fix_text [99, 0x2122, 0x2026] = ([99, 40, 84, 77, 41, 46, 46, 46],
      [\<lparr>problematic_char = 0x2122, replacement = [40, 84, 77, 41], occurrences = 1\<rparr>,
       \<lparr>problematic_char = 0x2026, replacement = [46, 46, 46], occurrences = 1\<rparr>])"
    by (simp add: fix_text_def fix_text_with_def character_replacements_def fix_step_def ascii_def)
  with fix_text_idempotent show ?thesis by blast
qed


section \<open>Properties of the content classifier\<close>

lemma is_prefix_append: "is_prefix xs (xs @ ys)"
  by (induction xs) auto

lemma contains_prefix: "is_prefix xs ys \<Longrightarrow> contains xs ys"
  by (cases ys; cases xs) auto

lemma contains_append: "contains needle (before @ needle @ after)"
proof (induction before)
  case Nil
  then show ?case by (simp add: contains_prefix is_prefix_append)
next
  case (Cons b before)
  then show ?case by simp
qed

lemma upper_append: "upper (xs @ ys) = upper xs @ upper ys"
  by (simp add: upper_def)

lemma upper_same_letter:
  assumes "65 \<le> code m" "code m \<le> 90" "same_letter m c"
  shows "upper_char c = [m]"
proof (cases "c = m")
  case True
  then show ?thesis using assms by (simp add: upper_char_def)
next
  case False
  then have c: "code c = code m + 32" using assms by (simp add: same_letter_def)
  then have "char_of (code c - 32) = m" by (simp add: code_def)
  then show ?thesis using assms c by (simp add: upper_char_def)
qed

lemma upper_spelling:
  "list_all2 same_letter marker mid \<Longrightarrow> \<forall>m \<in> set marker. 65 \<le> code m \<and> code m \<le> 90
   \<Longrightarrow> upper mid = marker"
  by (induction marker mid rule: list_all2_induct) (auto simp: upper_def upper_same_letter)

lemma occurs_contains_upper:
  assumes "occurs_ignoring_case marker text" "\<forall>m \<in> set marker. 65 \<le> code m \<and> code m \<le> 90"
  shows "contains marker (upper text)"
proof -
  obtain before mid after where t: "text = before @ mid @ after"
    and m: "list_all2 same_letter marker mid"
    using assms(1) by (auto simp: occurs_ignoring_case_def)
  have "upper text = upper before @ marker @ upper after"
    using upper_spelling [OF m assms(2)] by (simp add: t upper_append)
  then show ?thesis by (simp add: contains_append)
qed

text \<open>
  C8. Content-type classification is first-match-wins in the fixed check order: every
  text that contains both the marker OVERVIEW and the marker CONFIGURATION, each in any
  mix of upper and lower case, is classified as overview, the first test of the chain.
\<close>

theorem detect_content_type_overview_first:
  assumes "occurs_ignoring_case ''OVERVIEW'' content"
    and "occurs_ignoring_case ''CONFIGURATION'' content"
  shows "detect_content_type content = ''overview''"
proof -
  have "contains ''OVERVIEW'' (upper content)"
    by (rule occurs_contains_upper [OF assms(1)]) (simp add: code_def)
  then show ?thesis by (simp add: detect_content_type_def)
qed

theorem detect_content_type_overview_first_witness:
  "occurs_ignoring_case ''OVERVIEW'' ''Configuration Overview''
   \<and> occurs_ignoring_case ''CONFIGURATION'' ''Configuration Overview''
   \<and> detect_content_type ''Configuration Overview'' = ''overview''"
proof -
  have o: "occurs_ignoring_case ''OVERVIEW'' ''Configuration Overview''"
    unfolding occurs_ignoring_case_def
    by (rule exI [of _ "''Configuration ''"], rule exI [of _ "''Overview''"], rule exI [of _ "[]"])
       (simp add: same_letter_def code_def)
  have c: "occurs_ignoring_case ''CONFIGURATION'' ''Configuration Overview''"
    unfolding occurs_ignoring_case_def
    by (rule exI [of _ "[]"], rule exI [of _ "''Configuration''"], rule exI [of _ "'' Overview''"])
       (simp add: same_letter_def code_def)
  show ?thesis using o c detect_content_type_overview_first [OF o c] by simp
qed

section \<open>Properties of the content extractor\<close>

text \<open>
  C3. On the text of the first scenario the extractor returns title X, problem Z and
  resolution W, but an empty description: the description pattern takes no line break,
  so it cannot reach the label Problem on the next line, nor the end of the text.
\<close>

theorem extract_structured_content_scenario:
  "extract_structured_content
     ''Title: X\<newline>Description: Y\<newline>Problem: Z\<newline>Resolution: W''
   = \<lparr>title = ''X'', description = [], problem = ''Z'', resolution = ''W'',
      category = ''datadog-mulesoft'', tags = [], priority = ''medium''\<rparr>"
  by (simp add: extract_structured_content_def section_text_def title_pattern_def
      description_pattern_def problem_pattern_def resolution_pattern_def strip_def is_space_def
      code_def lower_char_def at_end_def)


section \<open>Properties of the corpus store\<close>

lemmas store_defs = save_csv_file_def write_file_def dict_to_list_def wrong_fields_def keys_def
  get_field_def fieldnames_def load_csv_file_def dict_reader_def dict_reader_row_def row_cells_def

lemma writerows_canonical:
  "\<forall>e \<in> set entries. wrong_fields e = [] \<Longrightarrow> writerows entries = (map row_cells entries, True)"
  by (induction entries) (auto simp: dict_to_list_def row_cells_def)

lemma writerows_wrong:
  "e \<in> set entries \<Longrightarrow> wrong_fields e \<noteq> [] \<Longrightarrow> snd (writerows entries) = False"
  by (induction entries) (auto simp: dict_to_list_def split: prod.splits)

lemma map_of_write_file: "map_of (write_file dir path rows) path = Some rows"
  by (simp add: write_file_def update_conv')

text \<open>
  C1 as written fails twice: an entry with a field outside the canonical set makes the
  save fail, the file left with the header alone; and an empty list writes an empty
  file, without header.
\<close>

theorem save_csv_file_counterexample:
  "save_csv_file [] ''kb.csv''
     [\<lparr>columns = [(''question'', Some ''q''), (''answer'', Some ''a''), (''source'', Some ''web'')],
       rest = None\<rparr>]
     = (False, [(''kb.csv'', [[''question'', ''answer'', ''category'', ''tags'', ''priority'']])])
   \<and> save_csv_file [] ''kb.csv'' [] = (True, [(''kb.csv'', [])])"
  by (simp add: store_defs)

text \<open>
  C1, amended. For every path and every non-empty list of entries: when every field of
  every entry is canonical, save succeeds and the file holds the header row
  question, answer, category, tags, priority followed by one row per entry in order,
  a field the entry lacks written as the empty cell; when some entry has a field
  outside the canonical set, the field is not dropped: save fails.
\<close>

theorem save_csv_file_rows:
  assumes "entries \<noteq> []"
  shows "((\<forall>e \<in> set entries. wrong_fields e = []) \<longrightarrow>
            fst (save_csv_file dir path entries) = True
          \<and> map_of (snd (save_csv_file dir path entries)) path
               = Some (fieldnames # map row_cells entries))
       \<and> ((\<exists>e \<in> set entries. wrong_fields e \<noteq> []) \<longrightarrow>
            fst (save_csv_file dir path entries) = False)"
  using assms
  by (auto simp: save_csv_file_def writerows_canonical map_of_write_file
      split: prod.splits dest: writerows_wrong)

theorem save_csv_file_rows_witness:
  "save_csv_file [] ''kb.csv''
     [\<lparr>columns = [(''question'', Some ''q''), (''priority'', Some ''low'')], rest = None\<rparr>,
      \<lparr>columns = [(''answer'', Some ''a''), (''question'', Some ''r'')], rest = None\<rparr>]
   = (True, [(''kb.csv'', [[''question'', ''answer'', ''category'', ''tags'', ''priority''],
                           [''q'', [], [], [], ''low''], [''r'', ''a'', [], [], []]])])"
proof -
  let ?es = "[\<lparr>columns = [(''question'', Some ''q''), (''priority'', Some ''low'')], rest = None\<rparr>,
      \<lparr>columns = [(''answer'', Some ''a''), (''question'', Some ''r'')], rest = None\<rparr>]"
  have ne: "?es \<noteq> []" by simp
  have ok: "\<forall>e \<in> set ?es. wrong_fields e = []"
    by (simp add: wrong_fields_def keys_def fieldnames_def)
  from save_csv_file_rows [OF ne, of "[]" "''kb.csv''"] ok
  have "fst (save_csv_file [] ''kb.csv'' ?es) = True"
    and "map_of (snd (save_csv_file [] ''kb.csv'' ?es)) ''kb.csv'' = Some (fieldnames # map row_cells ?es)"
    by blast+
  then show ?thesis by (simp add: store_defs row_cells_def)
qed







section \<open>Properties of duplicate removal\<close>

text \<open>A dry run leaves the directory as it is, whatever it returns.\<close>

lemma remove_duplicates_dry_run: "snd (remove_duplicates True dir) = dir"
  by (auto simp: remove_duplicates_def split: sum.splits prod.splits)

text \<open>
  C2. Duplicate removal in apply mode, on one corpus whose first three questions are
  equal after trimming and case folding and whose fourth is different: the stored row
  numbers are not adjusted after the first deletion, so the second deletion removes the
  fourth entry, which is no duplicate, and the third copy of the question survives.
\<close>

theorem remove_duplicates_shifted:
  "remove_duplicates False
     [(''faq.csv'', [[''question'', ''answer'', ''category'', ''tags'', ''priority''],
                     [''Reset?'', ''a1'', ''c'', ''t'', ''high''],
                     [''reset?'', ''a2'', ''c'', ''t'', ''high''],
                     [''RESET?'', ''a3'', ''c'', ''t'', ''high''],
                     [''Login?'', ''a4'', ''c'', ''t'', ''low'']])]
   = (Inr True,
     [(''faq.csv'', [[''question'', ''answer'', ''category'', ''tags'', ''priority''],
                     [''Reset?'', ''a1'', ''c'', ''t'', ''high''],
                     [''RESET?'', ''a3'', ''c'', ''t'', ''high'']])])"
  by code_simp


section \<open>Properties of validation and repair\<close>

lemma same_outside_refl: "same_outside ks e e"
  by (simp add: same_outside_def)

lemma same_outside_trans:
  "same_outside ks e e' \<Longrightarrow> same_outside ks e' e'' \<Longrightarrow> same_outside ks e e''"
  by (simp add: same_outside_def)

lemma same_outside_set_field: "key \<in> ks \<Longrightarrow> same_outside ks e (set_field e key v)"
  by (auto simp: same_outside_def set_field_def update_conv')

lemma check_category_frame:
  "check_category fix e = Inr (e', found) \<Longrightarrow> same_outside {''category'', ''priority'', ''tags''} e e'"
  by (auto simp: check_category_def same_outside_refl same_outside_set_field
      split: sum.splits if_splits)

lemma check_priority_present_frame:
  "check_priority_present fix e = Inr (e', found) \<Longrightarrow> same_outside {''category'', ''priority'', ''tags''} e e'"
  by (auto simp: check_priority_present_def same_outside_refl same_outside_set_field
      split: sum.splits if_splits)

lemma check_priority_valid_frame:
  "check_priority_valid fix e = Inr (e', found) \<Longrightarrow> same_outside {''category'', ''priority'', ''tags''} e e'"
  by (auto simp: check_priority_valid_def Let_def same_outside_refl same_outside_set_field
      split: sum.splits if_splits)

lemma check_tags_frame:
  "check_tags fix e = Inr (e', found) \<Longrightarrow> same_outside {''category'', ''priority'', ''tags''} e e'"
  by (auto simp: check_tags_def same_outside_refl same_outside_set_field
      split: sum.splits if_splits)

lemma and_then_Inr:
  "and_then r check = Inr (e'', found) \<Longrightarrow>
   \<exists>e' f1 f2. r = Inr (e', f1) \<and> check e' = Inr (e'', f2) \<and> found = (f1 \<or> f2)"
  by (auto simp: and_then_def split: sum.splits prod.splits)

lemma check_entry_frame:
  assumes "check_entry fix e = Inr (e', found)"
  shows "same_outside {''category'', ''priority'', ''tags''} e e'"
proof -
  from assms obtain e3 f3 g3 where a3: "and_then (and_then (check_category fix e) (check_priority_present fix))
       (check_priority_valid fix) = Inr (e3, f3)" and c4: "check_tags fix e3 = Inr (e', g3)"
    unfolding check_entry_def by (blast dest: and_then_Inr)
  from a3 obtain e2 f2 g2 where a2: "and_then (check_category fix e) (check_priority_present fix) = Inr (e2, f2)"
    and c3: "check_priority_valid fix e2 = Inr (e3, g2)"
    by (blast dest: and_then_Inr)
  from a2 obtain e1 f1 g1 where c1: "check_category fix e = Inr (e1, f1)"
    and c2: "check_priority_present fix e1 = Inr (e2, g1)"
    by (blast dest: and_then_Inr)
  show ?thesis
    using check_category_frame [OF c1] check_priority_present_frame [OF c2]
      check_priority_valid_frame [OF c3] check_tags_frame [OF c4]
    by (blast intro: same_outside_trans)
qed

lemma check_entries_frame:
  "check_entries fix entries = Inr (entries', found) \<Longrightarrow>
   list_all2 (same_outside {''category'', ''priority'', ''tags''}) entries entries'"
proof (induction entries arbitrary: entries' found)
  case Nil
  then show ?case by simp
next
  case (Cons e entries)
  then show ?case
    by (auto split: sum.splits prod.splits dest: check_entry_frame)
qed

lemma same_outside_get_field:
  "same_outside ks e e' \<Longrightarrow> key \<notin> ks \<Longrightarrow> get_field e' key = get_field e key"
  by (simp add: same_outside_def get_field_def)


section \<open>Properties of duplicate detection and merge\<close>

lemma set_update_cases:
  "x \<in> set (AList.update k v al) \<Longrightarrow> x = (k, v) \<or> x \<in> set al"
  by (induction al) (auto split: if_splits)

lemma append_location_ok:
  assumes "seen_ok dir seen" "q \<noteq> []" "located dir q loc"
  shows "seen_ok dir (append_location q loc seen)"
proof -
  have old: "\<forall>l \<in> set (case map_of seen q of None \<Rightarrow> [] | Some locs \<Rightarrow> locs). located dir q l"
  proof (cases "map_of seen q")
    case None
    then show ?thesis by simp
  next
    case (Some locs)
    then have "(q, locs) \<in> set seen" by (rule map_of_SomeD)
    then show ?thesis using assms(1) Some by (auto simp: seen_ok_def)
  qed
  show ?thesis
    unfolding seen_ok_def append_location_def
  proof (clarify)
    fix q' locs'
    assume "(q', locs') \<in> set (AList.update q ((case map_of seen q of None \<Rightarrow> [] | Some locs \<Rightarrow> locs) @ [loc]) seen)"
    then consider "(q', locs') = (q, (case map_of seen q of None \<Rightarrow> [] | Some locs \<Rightarrow> locs) @ [loc])"
      | "(q', locs') \<in> set seen"
      by (blast dest: set_update_cases)
    then show "q' \<noteq> [] \<and> (\<forall>loc \<in> set locs'. located dir q' loc)"
    proof cases
      case 1
      then show ?thesis using old assms(2,3) by auto
    next
      case 2
      then show ?thesis using assms(1) by (auto simp: seen_ok_def)
    qed
  qed
qed

lemma scan_entries_ok:
  "load_csv_file dir filename = pre @ es \<Longrightarrow> idx = Suc (length pre) \<Longrightarrow> seen_ok dir seen \<Longrightarrow>
   scan_entries filename idx es seen = Inr seen' \<Longrightarrow> seen_ok dir seen'"
proof (induction es arbitrary: pre idx seen)
  case Nil
  then show ?case by simp
next
  case (Cons e es)
  from Cons.prems(4) obtain q where q: "normalized_question e = Inr q"
    by (auto split: sum.splits)
  let ?seen1 = "if q \<noteq> [] then append_location q (filename, idx) seen else seen"
  have loc: "located dir q (filename, idx)"
    using Cons.prems(1,2) q by (simp add: located_def)
  have ok1: "seen_ok dir ?seen1"
    using Cons.prems(3) loc by (simp add: append_location_ok)
  have "scan_entries filename (Suc idx) es ?seen1 = Inr seen'"
    using Cons.prems(4) q by simp
  moreover have "load_csv_file dir filename = (pre @ [e]) @ es" "Suc idx = Suc (length (pre @ [e]))"
    using Cons.prems(1,2) by simp_all
  ultimately show ?case using Cons.IH ok1 by blast
qed

lemma scan_files_ok:
  "\<forall>(f, es) \<in> set files. es = load_csv_file dir f \<Longrightarrow> seen_ok dir seen \<Longrightarrow>
   scan_files files seen = Inr seen' \<Longrightarrow> seen_ok dir seen'"
proof (induction files arbitrary: seen)
  case Nil
  then show ?case by simp
next
  case (Cons fe files)
  obtain f es where fe: "fe = (f, es)" by (cases fe)
  from Cons.prems(3) obtain seen1 where s1: "scan_entries f 1 es seen = Inr seen1"
    and rest: "scan_files files seen1 = Inr seen'"
    by (auto simp: fe split: sum.splits)
  have "es = load_csv_file dir f" using Cons.prems(1) fe by simp
  then have "seen_ok dir seen1"
    using scan_entries_ok [of dir f "[]" es 1 seen seen1] Cons.prems(2) s1 by simp
  then show ?case using Cons.IH [OF _ _ rest] Cons.prems(1) by simp
qed

lemma get_all_entries_load:
  "\<forall>(f, es) \<in> set (get_all_entries dir). es = load_csv_file dir f"
  by (auto simp: get_all_entries_def)

lemma find_duplicates_ok:
  assumes "find_duplicates dir = Inr duplicates"
  shows "seen_ok dir duplicates"
proof -
  from assms obtain seen where s: "scan_files (get_all_entries dir) [] = Inr seen"
    and d: "duplicates = filter (\<lambda>(q, locations). length locations > 1) seen"
    by (auto simp: find_duplicates_def split: sum.splits)
  have "seen_ok dir seen"
    using scan_files_ok [OF get_all_entries_load _ s] by (simp add: seen_ok_def)
  then show ?thesis by (auto simp: d seen_ok_def)
qed

lemma merge_entries_empty:
  "merge_entries True es (acc, seen) = Inr (acc', seen') \<Longrightarrow> [] \<notin> seen \<Longrightarrow>
   [] \<notin> seen' \<and> filter empty_question acc' = filter empty_question acc @ filter empty_question es"
proof (induction es arbitrary: acc seen)
  case Nil
  then show ?case by simp
next
  case (Cons e es)
  from Cons.prems(1) obtain q where q: "normalized_question e = Inr q"
    by (auto split: sum.splits)
  show ?case
  proof (cases "q \<in> seen")
    case True
    then have "q \<noteq> []" using Cons.prems(2) by auto
    then have "\<not> empty_question e" using q by (simp add: empty_question_def)
    moreover have "merge_entries True es (acc, seen) = Inr (acc', seen')"
      using Cons.prems(1) q True by simp
    ultimately show ?thesis using Cons.IH Cons.prems(2) by simp
  next
    case False
    let ?seen1 = "if q \<noteq> [] then insert q seen else seen"
    have "merge_entries True es (acc @ [e], ?seen1) = Inr (acc', seen')"
      using Cons.prems(1) q False by simp
    moreover have "[] \<notin> ?seen1" using Cons.prems(2) by simp
    ultimately show ?thesis using Cons.IH [of "acc @ [e]" ?seen1] by simp
  qed
qed

lemma merge_sources_empty:
  "merge_sources True dir sources (acc, seen) = Inr (acc', seen') \<Longrightarrow> [] \<notin> seen \<Longrightarrow>
   filter empty_question acc'
     = filter empty_question acc @ filter empty_question (concat (map (load_csv_file dir) sources))"
proof (induction sources arbitrary: acc seen)
  case Nil
  then show ?case by simp
next
  case (Cons s sources)
  from Cons.prems(1) obtain acc1 seen1
    where m: "merge_entries True (load_csv_file dir s) (acc, seen) = Inr (acc1, seen1)"
      and r: "merge_sources True dir sources (acc1, seen1) = Inr (acc', seen')"
    by (auto split: if_splits sum.splits)
  from merge_entries_empty [OF m Cons.prems(2)] Cons.IH [OF r]
  show ?case by simp
qed

text \<open>
  C10. An entry whose question is empty after trimming is never treated as a duplicate.
  Every location of every group that duplicate detection returns is the place of an
  entry whose normalized question is the group's key, and the key is not empty. And
  the entries with an empty normalized question that a merge with duplicate suppression
  keeps are all those of its sources, in order.
\<close>

theorem empty_question_never_duplicate:
  "(find_duplicates dir = Inr duplicates \<longrightarrow>
      (\<forall>(q, locations) \<in> set duplicates. q \<noteq> [] \<and> (\<forall>loc \<in> set locations. located dir q loc)))
   \<and> (merge_sources True dir source_files ([], {}) = Inr (all_entries, seen_questions) \<longrightarrow>
        filter empty_question all_entries
          = filter empty_question (concat (map (load_csv_file dir) source_files)))"
  using find_duplicates_ok [of dir duplicates]
    merge_sources_empty [of dir source_files "[]" "{}" all_entries seen_questions]
  by (auto simp: seen_ok_def)

theorem empty_question_never_duplicate_witness:
  "find_duplicates
     [(''a.csv'', [[''question'', ''answer''], [[], ''w''], [''Q?'', ''x''], ['' q? '', ''y''], [''  '', ''z'']])]
   = Inr [(''q?'', [(''a.csv'', 2), (''a.csv'', 3)])]
   \<and> located
     [(''a.csv'', [[''question'', ''answer''], [[], ''w''], [''Q?'', ''x''], ['' q? '', ''y''], [''  '', ''z'']])]
     ''q?'' (''a.csv'', 3)
   \<and> merge_sources True
     [(''a.csv'', [[''question'', ''answer''], [[], ''w''], [''Q?'', ''x''], ['' q? '', ''y''], [''  '', ''z'']])]
     [''a.csv''] ([], {})
   = Inr ([\<lparr>columns = [(''question'', Some []), (''answer'', Some ''w'')], rest = None\<rparr>,
           \<lparr>columns = [(''question'', Some ''Q?''), (''answer'', Some ''x'')], rest = None\<rparr>,
           \<lparr>columns = [(''question'', Some ''  ''), (''answer'', Some ''z'')], rest = None\<rparr>], {''q?''})
   \<and> filter empty_question
       [\<lparr>columns = [(''question'', Some []), (''answer'', Some ''w'')], rest = None\<rparr>,
        \<lparr>columns = [(''question'', Some ''Q?''), (''answer'', Some ''x'')], rest = None\<rparr>,
        \<lparr>columns = [(''question'', Some ''  ''), (''answer'', Some ''z'')], rest = None\<rparr>]
     = filter empty_question (concat (map (load_csv_file
         [(''a.csv'', [[''question'', ''answer''], [[], ''w''], [''Q?'', ''x''], ['' q? '', ''y''], [''  '', ''z'']])])
         [''a.csv'']))"
proof -
  let ?D = "[(''a.csv'', [[''question'', ''answer''], [[], ''w''], [''Q?'', ''x''], ['' q? '', ''y''], [''  '', ''z'']])]"
  have fd: "find_duplicates ?D = Inr [(''q?'', [(''a.csv'', 2), (''a.csv'', 3)])]"
    by code_simp
  have ms: "merge_sources True ?D [''a.csv''] ([], {})
   = Inr ([\<lparr>columns = [(''question'', Some []), (''answer'', Some ''w'')], rest = None\<rparr>,
           \<lparr>columns = [(''question'', Some ''Q?''), (''answer'', Some ''x'')], rest = None\<rparr>,
           \<lparr>columns = [(''question'', Some ''  ''), (''answer'', Some ''z'')], rest = None\<rparr>], {''q?''})"
    by code_simp
  note inst = empty_question_never_duplicate [of ?D "[(''q?'', [(''a.csv'', 2), (''a.csv'', 3)])]"
      "[''a.csv'']"
      "[\<lparr>columns = [(''question'', Some []), (''answer'', Some ''w'')], rest = None\<rparr>,
        \<lparr>columns = [(''question'', Some ''Q?''), (''answer'', Some ''x'')], rest = None\<rparr>,
        \<lparr>columns = [(''question'', Some ''  ''), (''answer'', Some ''z'')], rest = None\<rparr>]"
      "{''q?''}"]
  have "\<forall>(q, locations) \<in> set [(''q?'', [(''a.csv'', 2::nat), (''a.csv'', 3)])].
          q \<noteq> [] \<and> (\<forall>loc \<in> set locations. located ?D q loc)"
    using inst fd by blast
  then have loc: "located ?D ''q?'' (''a.csv'', 3)" by simp
  have keep: "filter empty_question
       [\<lparr>columns = [(''question'', Some []), (''answer'', Some ''w'')], rest = None\<rparr>,
        \<lparr>columns = [(''question'', Some ''Q?''), (''answer'', Some ''x'')], rest = None\<rparr>,
        \<lparr>columns = [(''question'', Some ''  ''), (''answer'', Some ''z'')], rest = None\<rparr>]
     = filter empty_question (concat (map (load_csv_file ?D) [''a.csv'']))"
    using inst ms by blast
  show ?thesis
    by (rule conjI [OF fd conjI [OF loc conjI [OF ms keep]]])
qed


section \<open>Properties of merge\<close>














lemma row_cells_not_blank: "row_cells e \<noteq> []"
  by (simp add: row_cells_def fieldnames_def)






section \<open>Idempotence of repair\<close>

lemma strip_trimmed: "trimmed s \<Longrightarrow> strip s = s"
proof (cases "s = []")
  case True
  then show ?thesis by (simp add: strip_def)
next
  case False
  assume "trimmed s"
  then have h: "\<not> is_space (hd s)" and l: "\<not> is_space (last s)"
    using False by (simp_all add: trimmed_def)
  have "dropWhile is_space s = s"
    using h by (simp add: dropWhile_eq_self_iff)
  moreover have "dropWhile is_space (rev s) = rev s"
    using l False by (simp add: dropWhile_eq_self_iff hd_rev)
  ultimately show ?thesis by (simp add: strip_def)
qed

lemma trimmed_strip: "trimmed (strip s)"
proof (cases "strip s = []")
  case True
  then show ?thesis by (simp add: trimmed_def)
next
  case False
  let ?t = "dropWhile is_space s"
  let ?d = "dropWhile is_space (rev ?t)"
  have u: "strip s = rev ?d" by (simp add: strip_def)
  then have d: "?d \<noteq> []" using False by simp
  have "\<not> is_space (hd ?d)" using d by (rule hd_dropWhile)
  then have l: "\<not> is_space (last (strip s))"
    using d by (simp add: u last_rev)
  have "rev (takeWhile is_space (rev ?t) @ ?d) = rev (rev ?t)"
    by (simp only: takeWhile_dropWhile_id)
  then have "rev ?d @ rev (takeWhile is_space (rev ?t)) = ?t"
    by (simp only: rev_append rev_rev_ident)
  then have t: "?t = strip s @ rev (takeWhile is_space (rev ?t))"
    by (simp only: u)
  have tne: "?t \<noteq> []"
  proof
    assume a: "?t = []"
    have "strip s = rev (dropWhile is_space (rev ?t))" by (simp add: strip_def)
    also have "\<dots> = []" by (simp only: a rev.simps dropWhile.simps)
    finally show False using False by simp
  qed
  have "hd (strip s @ rev (takeWhile is_space (rev ?t))) = hd (strip s)"
    using False by (rule hd_append2)
  then have "hd ?t = hd (strip s)"
    using t by simp
  moreover have "\<not> is_space (hd ?t)" using tne by (rule hd_dropWhile)
  ultimately show ?thesis using l by (simp add: trimmed_def)
qed

lemma strip_strip: "strip (strip s) = strip s"
  by (simp add: strip_trimmed trimmed_strip)

lemma set_strip: "set (strip s) \<subseteq> set s"
  by (auto simp: strip_def dest!: set_dropWhileD)

lemma split_on_not_Nil: "split_on c s \<noteq> []"
  by (induction s) (auto split: list.splits)

lemma split_on_no_sep: "w \<in> set (split_on c s) \<Longrightarrow> c \<notin> set w"
  by (induction s arbitrary: w) (auto split: if_splits list.splits)

lemma split_on_plain: "c \<notin> set w \<Longrightarrow> split_on c w = [w]"
  by (induction w) auto

lemma split_on_append: "c \<notin> set w \<Longrightarrow> split_on c (w @ c # s) = w # split_on c s"
  by (induction w) auto

lemma split_on_join:
  "ts \<noteq> [] \<Longrightarrow> \<forall>w \<in> set ts. c \<notin> set w \<Longrightarrow> split_on c (join [c] ts) = ts"
proof (induction ts rule: induct_list012)
  case 1
  then show ?case by simp
next
  case (2 part)
  then show ?case by (simp add: split_on_plain)
next
  case (3 part v va)
  then show ?case by (simp add: split_on_append)
qed

lemma join_ends:
  "ts \<noteq> [] \<Longrightarrow> \<forall>w \<in> set ts. w \<noteq> [] \<Longrightarrow>
   join sep ts \<noteq> [] \<and> hd (join sep ts) = hd (hd ts) \<and> last (join sep ts) = last (last ts)"
proof (induction ts rule: induct_list012)
  case 1
  then show ?case by simp
next
  case (2 part)
  then show ?case by simp
next
  case (3 part v va)
  then have ih: "join sep (v # va) \<noteq> []" "last (join sep (v # va)) = last (last (v # va))"
    by simp_all
  have p: "part \<noteq> []" using 3 by simp
  have "join sep (part # v # va) = part @ (sep @ join sep (v # va))" by simp
  moreover have "hd (part @ (sep @ join sep (v # va))) = hd part"
    using p by (rule hd_append2)
  moreover have "last (part @ (sep @ join sep (v # va))) = last (join sep (v # va))"
    using ih(1) by simp
  ultimately show ?case using p ih(2) by (simp del: join.simps)
qed

lemma clean_tags_join:
  assumes "ts \<noteq> []" and tok: "\<forall>w \<in> set ts. w \<noteq> [] \<and> trimmed w \<and> CHR '','' \<notin> set w"
  shows "strip (join '','' ts) = join '','' ts \<and> clean_tags (join '','' ts) = join '','' ts"
proof -
  have ne: "\<forall>w \<in> set ts. w \<noteq> []" using tok by blast
  have j: "join '','' ts \<noteq> []" "hd (join '','' ts) = hd (hd ts)" "last (join '','' ts) = last (last ts)"
    using join_ends [OF assms(1) ne, of "'',''"] by blast+
  have "hd ts \<in> set ts" using assms(1) by simp
  then have h: "\<not> is_space (hd (hd ts))" using tok by (auto simp: trimmed_def)
  have "last ts \<in> set ts" using assms(1) by simp
  then have l: "\<not> is_space (last (last ts))" using tok by (auto simp: trimmed_def)
  have "trimmed (join '','' ts)"
    unfolding trimmed_def j using h l by simp
  then have s1: "strip (join '','' ts) = join '','' ts" by (rule strip_trimmed)
  have sp: "split_on (CHR '','') (join '','' ts) = ts"
    using assms(1) tok by (intro split_on_join) blast+
  have ms: "map strip ts = ts"
    using tok by (intro map_idI) (simp add: strip_trimmed)
  have fl: "filter (\<lambda>tag. tag \<noteq> []) ts = ts"
    using ne by (simp add: filter_id_conv)
  have "clean_tags (join '','' ts) = join '','' ts"
    unfolding clean_tags_def by (simp only: sp ms fl)
  then show ?thesis using s1 by simp
qed

lemma clean_tags_settled:
  "clean_tags s = [] \<or> (strip (clean_tags s) = clean_tags s \<and> clean_tags (clean_tags s) = clean_tags s)"
proof (cases "filter (\<lambda>tag. tag \<noteq> []) (map strip (split_on (CHR '','') s)) = []")
  case True
  then show ?thesis by (simp add: clean_tags_def)
next
  case False
  define ts where "ts = filter (\<lambda>tag. tag \<noteq> []) (map strip (split_on (CHR '','') s))"
  have tok: "\<forall>w \<in> set ts. w \<noteq> [] \<and> trimmed w \<and> CHR '','' \<notin> set w"
  proof
    fix w
    assume "w \<in> set ts"
    then obtain v where v: "v \<in> set (split_on (CHR '','') s)" and w: "w = strip v" and ne: "w \<noteq> []"
      by (auto simp: ts_def)
    have "CHR '','' \<notin> set v" using v by (rule split_on_no_sep)
    then have "CHR '','' \<notin> set w" using set_strip [of v] w by blast
    then show "w \<noteq> [] \<and> trimmed w \<and> CHR '','' \<notin> set w"
      using ne w by (simp add: trimmed_strip)
  qed
  have u: "clean_tags s = join '','' ts" by (simp add: clean_tags_def ts_def)
  have "ts \<noteq> []" using False by (simp add: ts_def)
  from clean_tags_join [OF this tok] show ?thesis by (simp only: u) simp
qed

lemma get_set_field:
  "get_field (set_field e k v) k' = (if k' = k then Some v else get_field e k')"
  by (simp add: get_field_def set_field_def update_conv')

lemma strip_general: "strip ''general'' = ''general''"
  by (simp add: strip_def is_space_def code_def)

lemma strip_medium: "strip ''medium'' = ''medium''"
  by (simp add: strip_def is_space_def code_def)

lemma lower_medium: "lower ''medium'' = ''medium''"
  by (simp add: lower_def lower_char_def code_def)

lemma strip_Nil: "strip [] = []"
  by (simp add: strip_def)

lemma check_category_spec:
  assumes "check_category True e = Inr (e1, found)"
  shows "(\<exists>c. get_field e1 ''category'' = Some c \<and> strip c \<noteq> [])
       \<and> (\<forall>k. k \<noteq> ''category'' \<longrightarrow> get_field e1 k = get_field e k)
       \<and> (\<not> found \<longrightarrow> e1 = e)"
  using assms
  by (auto simp: check_category_def stripped_def get_set_field strip_general
      split: option.splits if_splits)

lemma check_priority_present_spec:
  assumes "check_priority_present True e = Inr (e1, found)"
  shows "(\<exists>p. get_field e1 ''priority'' = Some p \<and> strip p \<noteq> [])
       \<and> (\<forall>k. k \<noteq> ''priority'' \<longrightarrow> get_field e1 k = get_field e k)
       \<and> (\<not> found \<longrightarrow> e1 = e)"
  using assms
  by (auto simp: check_priority_present_def stripped_def get_set_field strip_medium
      split: option.splits if_splits)

lemma check_priority_valid_spec:
  assumes "check_priority_valid True e = Inr (e1, found)"
    and "get_field e ''priority'' = Some p" and "strip p \<noteq> []"
  shows "(\<exists>p'. get_field e1 ''priority'' = Some p' \<and> lower (strip p') \<in> valid_priorities)
       \<and> (\<forall>k. k \<noteq> ''priority'' \<longrightarrow> get_field e1 k = get_field e k)
       \<and> (\<not> found \<longrightarrow> e1 = e)"
proof -
  have m: "lower (strip ''medium'') \<in> valid_priorities"
    by (simp add: strip_medium lower_medium valid_priorities_def)
  have ne: "lower (strip p) \<noteq> []" using assms(3) by (simp add: lower_def)
  show ?thesis
    using assms(1,2) m ne
    by (auto simp: check_priority_valid_def stripped_def get_set_field Let_def
        split: option.splits if_splits)
qed

lemma check_tags_spec:
  assumes "check_tags True e = Inr (e1, found)"
  shows "(\<exists>t. get_field e1 ''tags'' = Some t \<and> (strip t = [] \<or> clean_tags (strip t) = strip t))
       \<and> (\<forall>k. k \<noteq> ''tags'' \<longrightarrow> get_field e1 k = get_field e k)
       \<and> (\<not> found \<longrightarrow> e1 = e)"
proof -
  from assms obtain t0 where t0: "get_field e ''tags'' = Some t0"
    by (auto simp: check_tags_def stripped_def split: option.splits)
  show ?thesis
  proof (cases "strip t0 \<noteq> [] \<and> clean_tags (strip t0) \<noteq> strip t0")
    case True
    then have e1: "e1 = set_field e ''tags'' (clean_tags (strip t0))" and "found"
      using assms t0 by (auto simp: check_tags_def stripped_def)
    show ?thesis
      using clean_tags_settled [of "strip t0"] \<open>found\<close>
      by (auto simp: e1 get_set_field strip_Nil)
  next
    case False
    then have "e1 = e" "\<not> found"
      using assms t0 by (auto simp: check_tags_def stripped_def)
    then show ?thesis using False t0 by auto
  qed
qed

lemma check_entry_steps:
  assumes "check_entry fix e = Inr (e', found)"
  obtains e1 e2 e3 f1 f2 f3 f4 where
    "check_category fix e = Inr (e1, f1)" "check_priority_present fix e1 = Inr (e2, f2)"
    "check_priority_valid fix e2 = Inr (e3, f3)" "check_tags fix e3 = Inr (e', f4)"
    "found = (f1 \<or> f2 \<or> f3 \<or> f4)"
proof -
  from assms obtain e3 g3 f4 where a3: "and_then (and_then (check_category fix e)
        (check_priority_present fix)) (check_priority_valid fix) = Inr (e3, g3)"
    and c4: "check_tags fix e3 = Inr (e', f4)" and r4: "found = (g3 \<or> f4)"
    unfolding check_entry_def by (blast dest: and_then_Inr)
  from a3 obtain e2 g2 f3 where a2: "and_then (check_category fix e) (check_priority_present fix)
        = Inr (e2, g2)"
    and c3: "check_priority_valid fix e2 = Inr (e3, f3)" and r3: "g3 = (g2 \<or> f3)"
    by (blast dest: and_then_Inr)
  from a2 obtain e1 f1 f2 where c1: "check_category fix e = Inr (e1, f1)"
    and c2: "check_priority_present fix e1 = Inr (e2, f2)" and r2: "g2 = (f1 \<or> f2)"
    by (blast dest: and_then_Inr)
  have "found = (f1 \<or> f2 \<or> f3 \<or> f4)" using r2 r3 r4 by blast
  then show ?thesis using c1 c2 c3 c4 that by blast
qed

lemma check_entry_repaired:
  assumes "check_entry True e = Inr (e', found)"
  shows "repaired e'"
proof -
  from assms obtain e1 e2 e3 f1 f2 f3 f4 where
    c1: "check_category True e = Inr (e1, f1)" and c2: "check_priority_present True e1 = Inr (e2, f2)"
    and c3: "check_priority_valid True e2 = Inr (e3, f3)" and c4: "check_tags True e3 = Inr (e', f4)"
    by (rule check_entry_steps)
  note s1 = check_category_spec [OF c1]
  note s2 = check_priority_present_spec [OF c2]
  from s2 obtain p where p: "get_field e2 ''priority'' = Some p" "strip p \<noteq> []" by blast
  note s3 = check_priority_valid_spec [OF c3 p]
  note s4 = check_tags_spec [OF c4]
  from s1 obtain c where "get_field e1 ''category'' = Some c" "strip c \<noteq> []" by blast
  then have cat: "get_field e' ''category'' = Some c" "strip c \<noteq> []"
    using s2 s3 s4 by simp_all
  from s3 obtain p' where "get_field e3 ''priority'' = Some p'" "lower (strip p') \<in> valid_priorities"
    by blast
  then have pri: "get_field e' ''priority'' = Some p'" "lower (strip p') \<in> valid_priorities"
    using s4 by simp_all
  from s4 obtain t where "get_field e' ''tags'' = Some t" "strip t = [] \<or> clean_tags (strip t) = strip t"
    by blast
  then show ?thesis using cat pri by (auto simp: repaired_def)
qed

lemma check_entry_unchanged:
  assumes "check_entry True e = Inr (e', False)"
  shows "e' = e"
proof -
  from assms obtain e1 e2 e3 f1 f2 f3 f4 where
    c1: "check_category True e = Inr (e1, f1)" and c2: "check_priority_present True e1 = Inr (e2, f2)"
    and c3: "check_priority_valid True e2 = Inr (e3, f3)" and c4: "check_tags True e3 = Inr (e', f4)"
    and f: "False = (f1 \<or> f2 \<or> f3 \<or> f4)"
    by (rule check_entry_steps)
  note s1 = check_category_spec [OF c1]
  note s2 = check_priority_present_spec [OF c2]
  from s2 obtain p where p: "get_field e2 ''priority'' = Some p" "strip p \<noteq> []" by blast
  note s3 = check_priority_valid_spec [OF c3 p]
  note s4 = check_tags_spec [OF c4]
  show ?thesis using f s1 s2 s3 s4 by simp
qed

lemma repaired_settled:
  assumes "repaired e"
  shows "check_entry True e = Inr (e, False)"
proof -
  from assms obtain c p t where c: "get_field e ''category'' = Some c" "strip c \<noteq> []"
    and p: "get_field e ''priority'' = Some p" "lower (strip p) \<in> valid_priorities"
    and t: "get_field e ''tags'' = Some t" "strip t = [] \<or> clean_tags (strip t) = strip t"
    by (auto simp: repaired_def)
  have "[] \<notin> valid_priorities" by (simp add: valid_priorities_def)
  then have pne: "strip p \<noteq> []" using p(2) by (auto simp: lower_def)
  have 1: "check_category True e = Inr (e, False)"
    using c by (simp add: check_category_def stripped_def)
  have 2: "check_priority_present True e = Inr (e, False)"
    using p(1) pne by (simp add: check_priority_present_def stripped_def)
  have 3: "check_priority_valid True e = Inr (e, False)"
    using p by (simp add: check_priority_valid_def stripped_def)
  have 4: "check_tags True e = Inr (e, False)"
    using t by (auto simp: check_tags_def stripped_def)
  show ?thesis by (simp add: check_entry_def and_then_def 1 2 3 4)
qed

lemma get_field_reload:
  "key \<in> set fieldnames \<Longrightarrow>
   get_field (reload e) key = Some (case get_field e key of None \<Rightarrow> [] | Some cell \<Rightarrow> cell)"
  by (auto simp: reload_def dict_reader_row_def row_cells_def fieldnames_def get_field_def)

lemma repaired_reload: "repaired e \<Longrightarrow> repaired (reload e)"
  by (auto simp: repaired_def get_field_reload fieldnames_def)

lemma check_entries_repaired:
  "check_entries True es = Inr (es', found) \<Longrightarrow> \<forall>e' \<in> set es'. repaired e'"
proof (induction es arbitrary: es' found)
  case Nil
  then show ?case by simp
next
  case (Cons e es)
  then show ?case
    by (auto split: sum.splits prod.splits dest: check_entry_repaired)
qed

lemma check_entries_unchanged:
  "check_entries True es = Inr (es', False) \<Longrightarrow> es' = es"
proof (induction es arbitrary: es')
  case Nil
  then show ?case by simp
next
  case (Cons e es)
  then show ?case
    by (auto split: sum.splits prod.splits dest: check_entry_unchanged)
qed

lemma check_entries_settled:
  "\<forall>e \<in> set es. repaired e \<Longrightarrow> check_entries True es = Inr (es, False)"
  by (induction es) (simp_all add: repaired_settled)

lemma check_entries_length:
  "check_entries fix es = Inr (es', found) \<Longrightarrow> length es' = length es"
  by (induction es arbitrary: es' found) (auto split: sum.splits prod.splits)

lemma writerows_True:
  "writerows es = (rows, True) \<Longrightarrow> rows = map row_cells es \<and> (\<forall>e \<in> set es. wrong_fields e = [])"
  by (induction es arbitrary: rows) (auto simp: dict_to_list_def split: if_splits prod.splits)

lemma save_csv_file_True:
  assumes "es \<noteq> []" and "save_csv_file d f es = (True, d1)"
  shows "d1 = write_file d f (fieldnames # map row_cells es)"
  using assms by (auto simp: save_csv_file_def split: prod.splits dest: writerows_True)

lemma load_csv_file_cong: "map_of d' n = map_of d n \<Longrightarrow> load_csv_file d' n = load_csv_file d n"
  by (simp add: load_csv_file_def)

lemma map_of_write_file_other: "n \<noteq> f \<Longrightarrow> map_of (write_file d f rows) n = map_of d n"
  by (simp add: write_file_def update_conv')

lemma names_write_file: "map_of d f \<noteq> None \<Longrightarrow> map fst (write_file d f rows) = map fst d"
  by (auto simp: write_file_def update_keys map_of_eq_None_iff)

lemma load_written:
  "load_csv_file (write_file d f (fieldnames # map row_cells es)) f = map reload es"
proof -
  have "filter (\<lambda>row. row \<noteq> []) (map row_cells es) = map row_cells es"
    by (auto simp: filter_id_conv row_cells_not_blank)
  then show ?thesis
    by (simp add: load_csv_file_def map_of_write_file dict_reader_def reload_def)
qed

lemma load_not_Nil: "load_csv_file d f \<noteq> [] \<Longrightarrow> map_of d f \<noteq> None"
  by (cases "map_of d f") (simp_all add: load_csv_file_def)

lemma validate_files_settled:
  "\<forall>(f, es) \<in> set ws. check_entries True es = Inr (es, False) \<Longrightarrow>
   validate_files True ws h d = (Inr True, d)"
  by (induction ws arbitrary: h) auto

lemma validate_files_result:
  assumes "validate_files True ws h d = (Inr True, d')"
    and "distinct (map fst ws)"
    and "\<forall>(f, es) \<in> set ws. es = load_csv_file d f \<and> es \<noteq> []"
  shows "(\<forall>(f, es) \<in> set ws. check_entries True (load_csv_file d' f) = Inr (load_csv_file d' f, False))
       \<and> (\<forall>n. n \<notin> fst ` set ws \<longrightarrow> map_of d' n = map_of d n)
       \<and> map fst d' = map fst d"
  using assms
proof (induction ws arbitrary: h d)
  case Nil
  then show ?case by simp
next
  case (Cons w ws)
  obtain f0 es0 where w: "w = (f0, es0)" by (cases w)
  have es0: "es0 = load_csv_file d f0" "es0 \<noteq> []" using Cons.prems(3) w by auto
  have f0: "f0 \<notin> fst ` set ws" and dist: "distinct (map fst ws)"
    using Cons.prems(2) w by auto
  from Cons.prems(1) obtain es1 found where ce: "check_entries True es0 = Inr (es1, found)"
    by (auto simp: w split: sum.splits)
  have es1: "es1 \<noteq> []" using check_entries_length [OF ce] es0(2) by auto
  obtain d1 where d1: "validate_files True ws h d1 = (Inr True, d')"
    and head: "check_entries True (load_csv_file d1 f0) = Inr (load_csv_file d1 f0, False)"
    and other: "\<forall>n. n \<noteq> f0 \<longrightarrow> map_of d1 n = map_of d n"
    and names: "map fst d1 = map fst d"
  proof (cases found)
    case True
    obtain ok d1 where sv: "save_csv_file d f0 es1 = (ok, d1)" by (cases "save_csv_file d f0 es1")
    have ok: "ok" and rest: "validate_files True ws h d1 = (Inr True, d')"
      using Cons.prems(1) ce True sv by (auto simp: w split: if_splits)
    have d1: "d1 = write_file d f0 (fieldnames # map row_cells es1)"
      using save_csv_file_True [OF es1] sv ok by simp
    have "\<forall>e \<in> set (map reload es1). repaired e"
      using check_entries_repaired [OF ce] by (simp add: repaired_reload)
    then have "check_entries True (load_csv_file d1 f0) = Inr (load_csv_file d1 f0, False)"
      unfolding d1 load_written by (rule check_entries_settled)
    moreover have "\<forall>n. n \<noteq> f0 \<longrightarrow> map_of d1 n = map_of d n"
      by (simp add: d1 map_of_write_file_other)
    moreover have "map fst d1 = map fst d"
      unfolding d1 using es0 by (intro names_write_file load_not_Nil) simp
    ultimately show ?thesis using that rest by blast
  next
    case False
    then have "check_entries True es0 = Inr (es1, False)" using ce by simp
    then have "es1 = es0" by (rule check_entries_unchanged)
    then have "check_entries True (load_csv_file d f0) = Inr (load_csv_file d f0, False)"
      using ce False es0(1) by simp
    moreover have "validate_files True ws h d = (Inr True, d')"
      using Cons.prems(1) ce False by (simp add: w)
    ultimately show ?thesis using that by blast
  qed
  have "\<forall>(f, es) \<in> set ws. es = load_csv_file d1 f \<and> es \<noteq> []"
  proof (clarify)
    fix f es
    assume m: "(f, es) \<in> set ws"
    then have "f \<noteq> f0" using f0 by force
    then have "load_csv_file d1 f = load_csv_file d f"
      using other by (intro load_csv_file_cong) simp
    then show "es = load_csv_file d1 f \<and> es \<noteq> []" using Cons.prems(3) m by auto
  qed
  from Cons.IH [OF d1 dist this]
  have ih1: "\<forall>(f, es) \<in> set ws. check_entries True (load_csv_file d' f) = Inr (load_csv_file d' f, False)"
    and ih2: "\<forall>n. n \<notin> fst ` set ws \<longrightarrow> map_of d' n = map_of d1 n"
    and ih3: "map fst d' = map fst d1"
    by blast+
  have "load_csv_file d' f0 = load_csv_file d1 f0"
    using ih2 f0 by (intro load_csv_file_cong) simp
  then have "check_entries True (load_csv_file d' f0) = Inr (load_csv_file d' f0, False)"
    using head by simp
  moreover have "\<forall>n. n \<notin> fst ` set (w # ws) \<longrightarrow> map_of d' n = map_of d n"
    using ih2 other by (simp add: w)
  ultimately show ?case using ih1 ih3 names by (simp add: w)
qed

lemma get_all_entries_names: "distinct (map fst dir) \<Longrightarrow> distinct (map fst (get_all_entries dir))"
proof -
  assume d: "distinct (map fst dir)"
  have "map fst (map (\<lambda>name. (name, load_csv_file dir name)) (filter csv_name (map fst dir)))
      = filter csv_name (map fst dir)"
    by (simp add: comp_def)
  then have "distinct (map fst (map (\<lambda>name. (name, load_csv_file dir name)) (filter csv_name (map fst dir))))"
    using d by simp
  then show ?thesis unfolding get_all_entries_def by (rule distinct_map_filter)
qed

lemma get_all_entries_member:
  "(n, es) \<in> set (get_all_entries dir) \<longleftrightarrow>
     n \<in> set (map fst dir) \<and> csv_name n \<and> es = load_csv_file dir n \<and> es \<noteq> []"
  by (auto simp: get_all_entries_def)

lemma validate_and_fix_idempotent:
  assumes "distinct (map fst dir)" and "validate_and_fix True dir = (Inr True, dir')"
  shows "validate_and_fix True dir' = (Inr True, dir')"
proof -
  let ?ws = "get_all_entries dir"
  have run: "validate_files True ?ws False dir = (Inr True, dir')"
    using assms(2) by (simp add: validate_and_fix_def)
  have ld: "\<forall>(f, es) \<in> set ?ws. es = load_csv_file dir f \<and> es \<noteq> []"
    by (auto simp: get_all_entries_member)
  from validate_files_result [OF run get_all_entries_names [OF assms(1)] ld]
  have r1: "\<forall>(f, es) \<in> set ?ws. check_entries True (load_csv_file dir' f) = Inr (load_csv_file dir' f, False)"
    and r2: "\<forall>n. n \<notin> fst ` set ?ws \<longrightarrow> map_of dir' n = map_of dir n"
    and r3: "map fst dir' = map fst dir"
    by blast+
  have "\<forall>(n, es) \<in> set (get_all_entries dir'). check_entries True es = Inr (es, False)"
  proof (clarify)
    fix n es
    assume "(n, es) \<in> set (get_all_entries dir')"
    then have "n \<in> set (map fst dir') \<and> csv_name n \<and> es = load_csv_file dir' n \<and> es \<noteq> []"
      using get_all_entries_member [of n es dir'] by blast
    then have n: "n \<in> set (map fst dir)" "csv_name n" and es: "es = load_csv_file dir' n" "es \<noteq> []"
      using r3 by auto
    show "check_entries True es = Inr (es, False)"
    proof (cases "n \<in> fst ` set ?ws")
      case True
      then show ?thesis using r1 es(1) by auto
    next
      case False
      then have "load_csv_file dir' n = load_csv_file dir n"
        using r2 by (intro load_csv_file_cong) simp
      then have "(n, es) \<in> set ?ws"
        using n es by (simp add: get_all_entries_member)
      then show ?thesis using False by force
    qed
  qed
  then show ?thesis
    unfolding validate_and_fix_def by (rule validate_files_settled)
qed

lemma stripped_set_field:
  "stripped (set_field e k v) k' = (if k' = k then Inr (strip v) else stripped e k')"
  by (simp add: stripped_def get_set_field)

lemma check_category_effect:
  "check_category fix e = Inr (e1, f1) \<Longrightarrow>
   \<exists>c. stripped e ''category'' = Inr c \<and> f1 = (c = [])
      \<and> e1 = (if fix \<and> c = [] then set_field e ''category'' ''general'' else e)"
  by (auto simp: check_category_def split: sum.splits if_splits)

lemma check_priority_present_effect:
  "check_priority_present fix e = Inr (e1, f1) \<Longrightarrow>
   \<exists>p. stripped e ''priority'' = Inr p \<and> f1 = (p = [])
      \<and> e1 = (if fix \<and> p = [] then set_field e ''priority'' ''medium'' else e)"
  by (auto simp: check_priority_present_def split: sum.splits if_splits)

lemma check_priority_valid_effect:
  "check_priority_valid fix e = Inr (e1, f1) \<Longrightarrow>
   \<exists>p. stripped e ''priority'' = Inr p \<and> f1 = (lower p \<noteq> [] \<and> lower p \<notin> valid_priorities)
      \<and> e1 = (if fix \<and> lower p \<noteq> [] \<and> lower p \<notin> valid_priorities
               then set_field e ''priority'' ''medium'' else e)"
  by (auto simp: check_priority_valid_def Let_def split: sum.splits if_splits)

lemma check_tags_effect:
  "check_tags fix e = Inr (e1, f1) \<Longrightarrow>
   \<exists>t. stripped e ''tags'' = Inr t \<and> f1 = (t \<noteq> [] \<and> clean_tags t \<noteq> t)
      \<and> e1 = (if fix \<and> t \<noteq> [] \<and> clean_tags t \<noteq> t then set_field e ''tags'' (clean_tags t) else e)"
  by (auto simp: check_tags_def split: sum.splits if_splits)

lemma lower_Nil_iff: "lower p = [] \<longleftrightarrow> p = []"
  by (simp add: lower_def)

lemma lower_Nil: "lower [] = []"
  by (simp add: lower_def)

lemma Nil_not_valid: "[] \<notin> valid_priorities"
  by (simp add: valid_priorities_def)

lemma medium_valid: "''medium'' \<in> valid_priorities"
  by (simp add: valid_priorities_def)

lemma check_entry_effect:
  assumes "check_entry fix e = Inr (e', found)"
  shows "\<exists>c p t. stripped e ''category'' = Inr c \<and> stripped e ''priority'' = Inr p
            \<and> stripped e ''tags'' = Inr t
            \<and> found = (c = [] \<or> lower p \<notin> valid_priorities \<or> (t \<noteq> [] \<and> clean_tags t \<noteq> t))
            \<and> (\<not> fix \<longrightarrow> e' = e)
            \<and> (fix \<longrightarrow>
                 get_field e' ''category''
                   = (if c = [] then Some ''general'' else get_field e ''category'')
               \<and> get_field e' ''priority''
                   = (if lower p \<notin> valid_priorities then Some ''medium'' else get_field e ''priority'')
               \<and> get_field e' ''tags''
                   = (if t \<noteq> [] \<and> clean_tags t \<noteq> t then Some (clean_tags t) else get_field e ''tags''))"
proof -
  from assms obtain e1 e2 e3 f1 f2 f3 f4 where
    c1: "check_category fix e = Inr (e1, f1)" and c2: "check_priority_present fix e1 = Inr (e2, f2)"
    and c3: "check_priority_valid fix e2 = Inr (e3, f3)" and c4: "check_tags fix e3 = Inr (e', f4)"
    and f: "found = (f1 \<or> f2 \<or> f3 \<or> f4)"
    by (rule check_entry_steps)
  from check_category_effect [OF c1] obtain c where c: "stripped e ''category'' = Inr c" "f1 = (c = [])"
    "e1 = (if fix \<and> c = [] then set_field e ''category'' ''general'' else e)" by blast
  from check_priority_present_effect [OF c2] obtain p where p: "stripped e1 ''priority'' = Inr p"
    "f2 = (p = [])" "e2 = (if fix \<and> p = [] then set_field e1 ''priority'' ''medium'' else e1)" by blast
  from check_priority_valid_effect [OF c3] obtain p2 where p2: "stripped e2 ''priority'' = Inr p2"
    "f3 = (lower p2 \<noteq> [] \<and> lower p2 \<notin> valid_priorities)"
    "e3 = (if fix \<and> lower p2 \<noteq> [] \<and> lower p2 \<notin> valid_priorities
           then set_field e2 ''priority'' ''medium'' else e2)" by blast
  from check_tags_effect [OF c4] obtain t where t: "stripped e3 ''tags'' = Inr t"
    "f4 = (t \<noteq> [] \<and> clean_tags t \<noteq> t)"
    "e' = (if fix \<and> t \<noteq> [] \<and> clean_tags t \<noteq> t then set_field e3 ''tags'' (clean_tags t) else e3)" by blast
  have pe: "stripped e ''priority'' = Inr p"
    using p(1) c(3) by (simp add: stripped_set_field split: if_splits)
  have p2p: "p2 = (if fix \<and> p = [] then ''medium'' else p)"
    using p2(1) p(1,3) by (simp add: stripped_set_field strip_medium split: if_splits)
  have te: "stripped e ''tags'' = Inr t"
    using t(1) p2(3) p(3) c(3) by (simp add: stripped_set_field split: if_splits)
  have f23: "(f2 \<or> f3) = (lower p \<notin> valid_priorities)"
    using p(2) p2(2) p2p
    by (cases "p = []") (simp_all add: lower_medium medium_valid lower_Nil_iff lower_Nil Nil_not_valid)
  have found: "found = (c = [] \<or> lower p \<notin> valid_priorities \<or> (t \<noteq> [] \<and> clean_tags t \<noteq> t))"
    using f c(2) f23 t(2) by blast
  have nofix: "\<not> fix \<longrightarrow> e' = e"
    using c(3) p(3) p2(3) t(3) by simp
  have cat: "fix \<longrightarrow> get_field e' ''category''
                   = (if c = [] then Some ''general'' else get_field e ''category'')"
    using c(3) p(3) p2(3) t(3) by (simp add: get_set_field)
  have tags: "fix \<longrightarrow> get_field e' ''tags''
                   = (if t \<noteq> [] \<and> clean_tags t \<noteq> t then Some (clean_tags t) else get_field e ''tags'')"
    using c(3) p(3) p2(3) t(3) by (simp add: get_set_field)
  have pri: "fix \<longrightarrow> get_field e' ''priority''
                   = (if lower p \<notin> valid_priorities then Some ''medium'' else get_field e ''priority'')"
  proof (cases "p = []")
    case True
    then show ?thesis
      using c(3) p(3) p2(3) t(3) p2p
      by (simp add: get_set_field lower_medium medium_valid lower_Nil_iff lower_Nil Nil_not_valid)
  next
    case False
    then show ?thesis
      using c(3) p(3) p2(3) t(3) p2p
      by (simp add: get_set_field lower_Nil_iff)
  qed
  show ?thesis
    using c(1) pe te found nofix cat pri tags by blast
qed

lemma length_split_on: "length (split_on c s) = Suc (count_list s c)"
  by (induction s) (auto split: list.splits simp: split_on_not_Nil)

lemma count_join:
  "\<forall>w \<in> set ts. c \<notin> set w \<Longrightarrow> ts \<noteq> [] \<Longrightarrow> Suc (count_list (join [c] ts) c) = length ts"
proof (induction ts rule: induct_list012)
  case 1
  then show ?case by simp
next
  case (2 part)
  then show ?case by (simp add: count_list_0_iff)
next
  case (3 part v va)
  then have "Suc (count_list (join [c] (v # va)) c) = length (v # va)" by simp
  moreover have "count_list part c = 0" using 3 by (simp add: count_list_0_iff)
  ultimately show ?case by (simp add: count_list_append del: join.simps(3)) (simp)
qed

lemma clean_tags_blank_member:
  assumes "t \<noteq> []" and "[] \<in> set (map strip (split_on (CHR '','') t))"
  shows "clean_tags t \<noteq> t"
proof
  assume eq: "clean_tags t = t"
  define ms where "ms = map strip (split_on (CHR '','') t)"
  define ts where "ts = filter (\<lambda>tag. tag \<noteq> []) ms"
  have u: "clean_tags t = join '','' ts" by (simp add: clean_tags_def ts_def ms_def)
  have "ts \<noteq> []"
  proof
    assume "ts = []"
    then show False using u eq assms(1) by simp
  qed
  have nosep: "\<forall>w \<in> set ts. CHR '','' \<notin> set w"
  proof
    fix w
    assume "w \<in> set ts"
    then obtain v where v: "v \<in> set (split_on (CHR '','') t)" and w: "w = strip v"
      by (auto simp: ts_def ms_def)
    have "CHR '','' \<notin> set v" using v by (rule split_on_no_sep)
    then show "CHR '','' \<notin> set w" using set_strip [of v] w by blast
  qed
  have "length ts < length ms"
    unfolding ts_def using assms(2) by (intro length_filter_less [of "[]"]) (simp_all add: ms_def)
  moreover have "length ms = Suc (count_list t (CHR '',''))"
    by (simp add: ms_def length_split_on)
  moreover have "Suc (count_list (join '','' ts) (CHR '','')) = length ts"
    using nosep \<open>ts \<noteq> []\<close> by (rule count_join)
  ultimately show False using u eq by simp
qed

lemma strip_urgent: "strip ''urgent'' = ''urgent''"
  by (simp add: strip_def is_space_def code_def)

lemma urgent_invalid: "lower ''urgent'' \<notin> valid_priorities"
  by (simp add: lower_def lower_char_def code_def valid_priorities_def)

text \<open>
  C5, amended. Repair is idempotent on every corpus set on which the first repair pass
  succeeds: a second pass then succeeds too and changes no file. On every entry the
  repair of the repaired entry finds nothing and changes nothing. The first pass
  applies the defaults: a blank category becomes general; a blank or invalid priority
  becomes medium; a tag list that differs from the comma-join of its trimmed non-blank
  members, as every tag list with a blank member does, becomes that join; nothing
  else is rewritten. An entry with the priority urgent is reported by validation,
  which leaves it as it is, and is rewritten to medium by repair.
\<close>

theorem repair_idempotent:
  "(distinct (map fst dir) \<and> validate_and_fix True dir = (Inr True, dir')
      \<longrightarrow> validate_and_fix True dir' = (Inr True, dir'))
   \<and> (check_entry True e = Inr (e', found) \<longrightarrow>
        check_entry True e' = Inr (e', False)
        \<and> (\<exists>c p t. stripped e ''category'' = Inr c \<and> stripped e ''priority'' = Inr p
              \<and> stripped e ''tags'' = Inr t
              \<and> found = (c = [] \<or> lower p \<notin> valid_priorities \<or> (t \<noteq> [] \<and> clean_tags t \<noteq> t))
              \<and> get_field e' ''category''
                   = (if c = [] then Some ''general'' else get_field e ''category'')
              \<and> get_field e' ''priority''
                   = (if lower p \<notin> valid_priorities then Some ''medium'' else get_field e ''priority'')
              \<and> get_field e' ''tags''
                   = (if t \<noteq> [] \<and> clean_tags t \<noteq> t then Some (clean_tags t)
                      else get_field e ''tags'')))
   \<and> (get_field e ''priority'' = Some ''urgent'' \<longrightarrow>
        (\<forall>e2 found2. check_entry False e = Inr (e2, found2) \<longrightarrow> e2 = e \<and> found2)
        \<and> (check_entry True e = Inr (e', found) \<longrightarrow> get_field e' ''priority'' = Some ''medium''))
   \<and> (check_entry True e = Inr (e', found) \<and> stripped e ''tags'' = Inr tags_str \<and> tags_str \<noteq> []
        \<and> [] \<in> set (map strip (split_on (CHR '','') tags_str))
      \<longrightarrow> get_field e' ''tags'' = Some (clean_tags tags_str))"
proof (intro conjI impI allI)
  assume "distinct (map fst dir) \<and> validate_and_fix True dir = (Inr True, dir')"
  then show "validate_and_fix True dir' = (Inr True, dir')"
    using validate_and_fix_idempotent by blast
next
  assume a: "check_entry True e = Inr (e', found)"
  show "check_entry True e' = Inr (e', False)"
    using check_entry_repaired [OF a] by (rule repaired_settled)
  show "\<exists>c p t. stripped e ''category'' = Inr c \<and> stripped e ''priority'' = Inr p
              \<and> stripped e ''tags'' = Inr t
              \<and> found = (c = [] \<or> lower p \<notin> valid_priorities \<or> (t \<noteq> [] \<and> clean_tags t \<noteq> t))
              \<and> get_field e' ''category''
                   = (if c = [] then Some ''general'' else get_field e ''category'')
              \<and> get_field e' ''priority''
                   = (if lower p \<notin> valid_priorities then Some ''medium'' else get_field e ''priority'')
              \<and> get_field e' ''tags''
                   = (if t \<noteq> [] \<and> clean_tags t \<noteq> t then Some (clean_tags t)
                      else get_field e ''tags'')"
    using check_entry_effect [OF a] by simp
next
  fix e2 found2
  assume u: "get_field e ''priority'' = Some ''urgent''"
    and a: "check_entry False e = Inr (e2, found2)"
  have "stripped e ''priority'' = Inr ''urgent''"
    using u by (simp add: stripped_def strip_urgent)
  then show "e2 = e" "found2"
    using check_entry_effect [OF a] urgent_invalid by auto
next
  assume u: "get_field e ''priority'' = Some ''urgent''"
    and a: "check_entry True e = Inr (e', found)"
  have "stripped e ''priority'' = Inr ''urgent''"
    using u by (simp add: stripped_def strip_urgent)
  then show "get_field e' ''priority'' = Some ''medium''"
    using check_entry_effect [OF a] urgent_invalid by auto
next
  assume b: "check_entry True e = Inr (e', found) \<and> stripped e ''tags'' = Inr tags_str \<and> tags_str \<noteq> []
        \<and> [] \<in> set (map strip (split_on (CHR '','') tags_str))"
  then have "clean_tags tags_str \<noteq> tags_str"
    by (intro clean_tags_blank_member) simp_all
  then show "get_field e' ''tags'' = Some (clean_tags tags_str)"
    using b check_entry_effect [of True e e' found] by auto
qed

text \<open>
  C5 as written fails on a corpus set whose first pass fails. The file a.csv has a
  sixth column, so saving its repaired entry fails: the pass stops, a.csv is left
  with the header only and b.csv is not reached. The second pass finds no entry in
  a.csv, goes on to b.csv and rewrites it.
\<close>

theorem repair_idempotent_counterexample:
  "validate_and_fix True
     [(''a.csv'', [[''question'', ''answer'', ''category'', ''tags'', ''priority'', ''source''],
                   [''q1'', ''a1'', [], ''t'', ''high'', ''web'']]),
      (''b.csv'', [[''question'', ''answer'', ''category'', ''tags'', ''priority''],
                   [''q2'', ''a2'', [], ''t'', ''high'']])]
   = (Inr False,
     [(''a.csv'', [[''question'', ''answer'', ''category'', ''tags'', ''priority'']]),
      (''b.csv'', [[''question'', ''answer'', ''category'', ''tags'', ''priority''],
                   [''q2'', ''a2'', [], ''t'', ''high'']])])
   \<and> validate_and_fix True
     [(''a.csv'', [[''question'', ''answer'', ''category'', ''tags'', ''priority'']]),
      (''b.csv'', [[''question'', ''answer'', ''category'', ''tags'', ''priority''],
                   [''q2'', ''a2'', [], ''t'', ''high'']])]
   = (Inr True,
     [(''a.csv'', [[''question'', ''answer'', ''category'', ''tags'', ''priority'']]),
      (''b.csv'', [[''question'', ''answer'', ''category'', ''tags'', ''priority''],
                   [''q2'', ''a2'', ''general'', ''t'', ''high'']])])"
  by code_simp

theorem repair_idempotent_witness:
  "validate_and_fix False
     [(''kb.csv'', [[''question'', ''answer'', ''category'', ''tags'', ''priority''],
                    [''q'', ''a'', [], '' x, ,y '', ''urgent'']])]
   = (Inr False,
     [(''kb.csv'', [[''question'', ''answer'', ''category'', ''tags'', ''priority''],
                    [''q'', ''a'', [], '' x, ,y '', ''urgent'']])])
   \<and> validate_and_fix True
     [(''kb.csv'', [[''question'', ''answer'', ''category'', ''tags'', ''priority''],
                    [''q'', ''a'', [], '' x, ,y '', ''urgent'']])]
   = (Inr True,
     [(''kb.csv'', [[''question'', ''answer'', ''category'', ''tags'', ''priority''],
                    [''q'', ''a'', ''general'', ''x,y'', ''medium'']])])
   \<and> validate_and_fix True
     [(''kb.csv'', [[''question'', ''answer'', ''category'', ''tags'', ''priority''],
                    [''q'', ''a'', ''general'', ''x,y'', ''medium'']])]
   = (Inr True,
     [(''kb.csv'', [[''question'', ''answer'', ''category'', ''tags'', ''priority''],
                    [''q'', ''a'', ''general'', ''x,y'', ''medium'']])])"
proof -
  let ?D = "[(''kb.csv'', [[''question'', ''answer'', ''category'', ''tags'', ''priority''],
                    [''q'', ''a'', [], '' x, ,y '', ''urgent'']])]"
  let ?D' = "[(''kb.csv'', [[''question'', ''answer'', ''category'', ''tags'', ''priority''],
                    [''q'', ''a'', ''general'', ''x,y'', ''medium'']])]"
  have report: "validate_and_fix False ?D = (Inr False, ?D)"
    by code_simp
  have first: "validate_and_fix True ?D = (Inr True, ?D')"
    by code_simp
  have names: "distinct (map fst ?D)"
    by simp
  have second: "validate_and_fix True ?D' = (Inr True, ?D')"
    using repair_idempotent [of ?D ?D', THEN conjunct1] names first by blast
  show ?thesis
    by (rule conjI [OF report conjI [OF first second]])
qed


section \<open>Question and answer under repair\<close>

lemma keeps_questions_refl: "keeps_questions d d"
  unfolding keeps_questions_def
proof
  fix n
  show "\<exists>k. map question_answer (load_csv_file d n) = take k (map question_answer (load_csv_file d n))"
    by (rule exI [of _ "length (load_csv_file d n)"]) simp
qed

lemma keeps_questions_trans:
  assumes "keeps_questions d d1" and "keeps_questions d1 d2"
  shows "keeps_questions d d2"
  unfolding keeps_questions_def
proof
  fix n
  from assms(1) obtain k where k: "map question_answer (load_csv_file d1 n)
      = take k (map question_answer (load_csv_file d n))"
    unfolding keeps_questions_def by blast
  from assms(2) obtain j where j: "map question_answer (load_csv_file d2 n)
      = take j (map question_answer (load_csv_file d1 n))"
    unfolding keeps_questions_def by blast
  have "map question_answer (load_csv_file d2 n)
      = take (min j k) (map question_answer (load_csv_file d n))"
    by (simp add: j k)
  then show "\<exists>k. map question_answer (load_csv_file d2 n)
      = take k (map question_answer (load_csv_file d n))" ..
qed

lemma same_questions_refl: "same_questions d d"
  by (simp add: same_questions_def)

lemma same_questions_trans: "same_questions d d1 \<Longrightarrow> same_questions d1 d2 \<Longrightarrow> same_questions d d2"
  by (simp add: same_questions_def)

lemma writerows_prefix:
  "writerows es = (rows, ok) \<Longrightarrow>
   \<exists>k. rows = map row_cells (take k es) \<and> (ok \<longrightarrow> rows = map row_cells es)"
proof (induction es arbitrary: rows ok)
  case Nil
  then show ?case by simp
next
  case (Cons e es)
  show ?case
  proof (cases "dict_to_list e")
    case (Inl err)
    then have "rows = []" "\<not> ok" using Cons.prems by simp_all
    then have "rows = map row_cells (take 0 (e # es)) \<and> (ok \<longrightarrow> rows = map row_cells (e # es))"
      by simp
    then show ?thesis ..
  next
    case (Inr row)
    then have row: "row = row_cells e" by (simp add: dict_to_list_def split: if_splits)
    obtain rows' ok' where w: "writerows es = (rows', ok')" by (cases "writerows es")
    then have r: "rows = row_cells e # rows'" "ok = ok'" using Cons.prems Inr row by simp_all
    from Cons.IH [OF w] obtain k where "rows' = map row_cells (take k es)"
      "ok' \<longrightarrow> rows' = map row_cells es" by blast
    then have "rows = map row_cells (take (Suc k) (e # es)) \<and> (ok \<longrightarrow> rows = map row_cells (e # es))"
      using r by simp
    then show ?thesis ..
  qed
qed

lemma question_answer_reload: "question_answer (reload e) = question_answer e"
  by (simp add: question_answer_def get_field_reload fieldnames_def)

lemma question_answer_frame:
  "same_outside {''category'', ''priority'', ''tags''} e e' \<Longrightarrow> question_answer e' = question_answer e"
  by (simp add: question_answer_def same_outside_get_field)

lemma check_entries_question_answer:
  assumes "check_entries fix es = Inr (es', found)"
  shows "map question_answer es' = map question_answer es"
proof -
  have "list_all2 (same_outside {''category'', ''priority'', ''tags''}) es es'"
    using assms by (rule check_entries_frame)
  then show ?thesis
    by (induction rule: list_all2_induct) (simp_all add: question_answer_frame)
qed

lemma save_keeps_questions:
  assumes "es = load_csv_file d f" and "map question_answer es' = map question_answer es"
    and "save_csv_file d f es' = (ok, d1)"
  shows "keeps_questions d d1 \<and> (ok \<longrightarrow> same_questions d d1)"
proof (cases "es' = []")
  case True
  then have d1: "d1 = write_file d f []" and "es = []"
    using assms(2,3) by (simp_all add: save_csv_file_def)
  have "load_csv_file d1 n = load_csv_file d n" for n
  proof (cases "n = f")
    case True
    have "load_csv_file d1 f = []"
      by (simp add: d1 load_csv_file_def map_of_write_file dict_reader_def)
    then show ?thesis using True assms(1) \<open>es = []\<close> by simp
  next
    case False
    then show ?thesis by (simp add: d1 load_csv_file_def map_of_write_file_other)
  qed
  then have "same_questions d d1" by (simp add: same_questions_def)
  moreover have "keeps_questions d d1"
    using \<open>\<And>n. load_csv_file d1 n = load_csv_file d n\<close> keeps_questions_refl [of d]
    by (simp add: keeps_questions_def)
  ultimately show ?thesis by simp
next
  case False
  obtain rows wok where w: "writerows es' = (rows, wok)" by (cases "writerows es'")
  then have d1: "d1 = write_file d f (fieldnames # rows)" and ok: "ok = wok"
    using assms(3) False by (simp_all add: save_csv_file_def)
  from writerows_prefix [OF w] obtain k where k: "rows = map row_cells (take k es')"
    "wok \<longrightarrow> rows = map row_cells es'" by blast
  have other: "\<And>n. n \<noteq> f \<Longrightarrow> load_csv_file d1 n = load_csv_file d n"
    by (simp add: d1 load_csv_file_def map_of_write_file_other)
  have "load_csv_file d1 f = map reload (take k es')"
    unfolding d1 k(1) by (rule load_written)
  then have "map question_answer (load_csv_file d1 f) = map question_answer (take k es')"
    by (simp add: comp_def question_answer_reload)
  also have "\<dots> = take k (map question_answer es')"
    by (simp add: take_map)
  finally have here: "map question_answer (load_csv_file d1 f)
      = take k (map question_answer (load_csv_file d f))"
    using assms(1,2) by simp
  have full: "ok \<Longrightarrow> map question_answer (load_csv_file d1 f)
      = map question_answer (load_csv_file d f)"
  proof -
    assume ok
    then have "rows = map row_cells es'" using k(2) ok by simp
    then have "load_csv_file d1 f = map reload es'"
      unfolding d1 by (simp only: load_written)
    then show ?thesis using assms(1,2) by (simp add: comp_def question_answer_reload)
  qed
  have "keeps_questions d d1"
    unfolding keeps_questions_def
  proof
    fix n
    show "\<exists>k. map question_answer (load_csv_file d1 n)
        = take k (map question_answer (load_csv_file d n))"
    proof (cases "n = f")
      case True
      then show ?thesis using here by blast
    next
      case False
      then have "map question_answer (load_csv_file d1 n)
          = take (length (load_csv_file d n)) (map question_answer (load_csv_file d n))"
        by (simp add: other)
      then show ?thesis ..
    qed
  qed
  moreover have "ok \<longrightarrow> same_questions d d1"
    unfolding same_questions_def using full other by metis
  ultimately show ?thesis ..
qed

lemma validate_files_keeps_questions:
  assumes "validate_files fix ws h d = (outcome, d')"
    and "distinct (map fst ws)"
    and "\<forall>(f, es) \<in> set ws. es = load_csv_file d f"
  shows "keeps_questions d d' \<and> (outcome = Inr True \<longrightarrow> same_questions d d')"
  using assms
proof (induction ws arbitrary: h d)
  case Nil
  then show ?case by (simp add: keeps_questions_refl same_questions_refl)
next
  case (Cons w ws)
  obtain f0 es0 where w: "w = (f0, es0)" by (cases w)
  have es0: "es0 = load_csv_file d f0" using Cons.prems(3) w by auto
  have f0: "f0 \<notin> fst ` set ws" and dist: "distinct (map fst ws)"
    using Cons.prems(2) w by auto
  show ?case
  proof (cases "check_entries fix es0")
    case (Inl err)
    then have "d' = d" "outcome = Inl err" using Cons.prems(1) by (simp_all add: w)
    then show ?thesis by (simp add: keeps_questions_refl)
  next
    case (Inr r)
    obtain es1 found where r: "r = (es1, found)" by (cases r)
    have ce: "check_entries fix es0 = Inr (es1, found)" using Inr r by simp
    show ?thesis
    proof (cases "fix \<and> found")
      case True
      obtain ok d1 where sv: "save_csv_file d f0 es1 = (ok, d1)" by (cases "save_csv_file d f0 es1")
      from save_keeps_questions [OF es0 check_entries_question_answer [OF ce] sv]
      have k1: "keeps_questions d d1" and s1: "ok \<longrightarrow> same_questions d d1" by blast+
      show ?thesis
      proof (cases ok)
        case False
        then have "d' = d1" "outcome = Inr False"
          using Cons.prems(1) ce True sv by (simp_all add: w)
        then show ?thesis using k1 by simp
      next
        case ok: True
        then have run: "validate_files fix ws h d1 = (outcome, d')"
          using Cons.prems(1) ce True sv by (simp add: w)
        have oth: "\<forall>n. n \<noteq> f0 \<longrightarrow> map_of d1 n = map_of d n"
          using sv by (auto simp: save_csv_file_def map_of_write_file_other split: if_splits prod.splits)
        have "\<forall>(f, es) \<in> set ws. es = load_csv_file d1 f"
        proof (clarify)
          fix f es
          assume m: "(f, es) \<in> set ws"
          then have "f \<noteq> f0" using f0 by force
          then have "load_csv_file d1 f = load_csv_file d f"
            using oth by (intro load_csv_file_cong) simp
          then show "es = load_csv_file d1 f" using Cons.prems(3) m by auto
        qed
        from Cons.IH [OF run dist this]
        have "keeps_questions d1 d'" "outcome = Inr True \<longrightarrow> same_questions d1 d'" by blast+
        then show ?thesis
          using k1 s1 ok by (blast intro: keeps_questions_trans same_questions_trans)
      qed
    next
      case False
      have "validate_files fix ((f0, es0) # ws) h d
          = validate_files fix ws (h \<or> (\<not> fix \<and> found)) d"
        using ce False by (cases "fix"; cases found) simp_all
      then have run: "validate_files fix ws (h \<or> (\<not> fix \<and> found)) d = (outcome, d')"
        using Cons.prems(1) by (simp only: w)
      have "\<forall>(f, es) \<in> set ws. es = load_csv_file d f" using Cons.prems(3) by simp
      from Cons.IH [OF run dist this] show ?thesis .
    qed
  qed
qed

lemma validate_and_fix_keeps_questions:
  assumes "distinct (map fst dir)" and "validate_and_fix fix dir = (outcome, dir')"
  shows "keeps_questions dir dir' \<and> (outcome = Inr True \<longrightarrow> same_questions dir dir')"
proof -
  have "\<forall>(f, es) \<in> set (get_all_entries dir). es = load_csv_file dir f"
    by (rule get_all_entries_load)
  with assms show ?thesis
    unfolding validate_and_fix_def
    by (intro validate_files_keeps_questions [OF _ get_all_entries_names]) simp_all
qed

lemma check_entries_keeps_question_and_answer:
  assumes "check_entries True entries = Inr (entries', found)"
  shows "length entries' = length entries
       \<and> (\<forall>i < length entries.
            get_field (entries' ! i) ''question'' = get_field (entries ! i) ''question''
          \<and> get_field (entries' ! i) ''answer'' = get_field (entries ! i) ''answer''
          \<and> same_outside {''category'', ''priority'', ''tags''} (entries ! i) (entries' ! i))"
proof -
  have all: "list_all2 (same_outside {''category'', ''priority'', ''tags''}) entries entries'"
    using assms by (rule check_entries_frame)
  then have len: "length entries' = length entries"
    by (simp add: list_all2_lengthD)
  have "\<forall>i < length entries. same_outside {''category'', ''priority'', ''tags''} (entries ! i) (entries' ! i)"
    using all by (simp add: list_all2_conv_all_nth)
  then show ?thesis
    using len by (auto simp: same_outside_get_field)
qed

text \<open>
  C9. Repair never modifies the question or the answer of an entry. Whenever the repair
  loop over the entries of a corpus completes, it returns as many entries, each with
  the question and the answer it had, under the same keys: only the fields category,
  priority and tags can differ. And whatever the outcome of a repair pass over a
  corpus set, every file afterwards holds, entry by entry, the questions and answers
  it held before, all of them when the pass succeeds.
\<close>

theorem repair_never_touches_question_and_answer:
  "(check_entries True entries = Inr (entries', found) \<longrightarrow>
      length entries' = length entries
      \<and> (\<forall>i < length entries.
            get_field (entries' ! i) ''question'' = get_field (entries ! i) ''question''
          \<and> get_field (entries' ! i) ''answer'' = get_field (entries ! i) ''answer''
          \<and> same_outside {''category'', ''priority'', ''tags''} (entries ! i) (entries' ! i)))
   \<and> (distinct (map fst dir) \<and> validate_and_fix True dir = (outcome, dir') \<longrightarrow>
        keeps_questions dir dir' \<and> (outcome = Inr True \<longrightarrow> same_questions dir dir'))"
  using check_entries_keeps_question_and_answer [of entries entries' found]
    validate_and_fix_keeps_questions [of dir True outcome dir']
  by blast

theorem repair_never_touches_question_and_answer_witness:
  "check_entries True
     [\<lparr>columns = [(''question'', Some ''Q?''), (''answer'', Some '' A ''), (''category'', Some []),
                  (''tags'', Some ''x, ,y''), (''priority'', Some ''urgent'')], rest = None\<rparr>]
   = Inr ([\<lparr>columns = [(''question'', Some ''Q?''), (''answer'', Some '' A ''), (''category'', Some ''general''),
                  (''tags'', Some ''x,y''), (''priority'', Some ''medium'')], rest = None\<rparr>], True)
   \<and> validate_and_fix True
     [(''kb.csv'', [[''tags'', ''question'', ''answer''], [''x, ,y'', ''Q?'', '' A '']])]
   = (Inr True,
     [(''kb.csv'', [[''question'', ''answer'', ''category'', ''tags'', ''priority''],
                    [''Q?'', '' A '', ''general'', ''x,y'', ''medium'']])])
   \<and> same_questions
     [(''kb.csv'', [[''tags'', ''question'', ''answer''], [''x, ,y'', ''Q?'', '' A '']])]
     [(''kb.csv'', [[''question'', ''answer'', ''category'', ''tags'', ''priority''],
                    [''Q?'', '' A '', ''general'', ''x,y'', ''medium'']])]"
proof -
  let ?D = "[(''kb.csv'', [[''tags'', ''question'', ''answer''], [''x, ,y'', ''Q?'', '' A '']])]"
  let ?D' = "[(''kb.csv'', [[''question'', ''answer'', ''category'', ''tags'', ''priority''],
                    [''Q?'', '' A '', ''general'', ''x,y'', ''medium'']])]"
  have loop: "check_entries True
     [\<lparr>columns = [(''question'', Some ''Q?''), (''answer'', Some '' A ''), (''category'', Some []),
                  (''tags'', Some ''x, ,y''), (''priority'', Some ''urgent'')], rest = None\<rparr>]
   = Inr ([\<lparr>columns = [(''question'', Some ''Q?''), (''answer'', Some '' A ''), (''category'', Some ''general''),
                  (''tags'', Some ''x,y''), (''priority'', Some ''medium'')], rest = None\<rparr>], True)"
    by code_simp
  have pass: "validate_and_fix True ?D = (Inr True, ?D')"
    by code_simp
  have names: "distinct (map fst ?D)"
    by simp
  have same: "same_questions ?D ?D'"
    using repair_never_touches_question_and_answer [of _ _ _ ?D "Inr True" ?D', THEN conjunct2]
      names pass by blast
  show ?thesis
    by (rule conjI [OF loop conjI [OF pass same]])
qed

end
